theory Spec2Isabelle
  imports Main "HOL-Library.AList"
begin

section \<open>Data model of \<^verbatim>\<open>main.py\<close>\<close>

text \<open>
  \<^verbatim>\<open>ParserElement(l, r, type)\<close>: a classified half-open range of the text. The category
  is a Python \<^verbatim>\<open>str\<close> in the source and stays a string here.
\<close>

record ParserElement =
  l :: nat
  r :: nat
  type :: string

text \<open>
  The two attributes of a parser object that change during a parse: the cursor
  \<^verbatim>\<open>self._pos\<close> and the span list \<^verbatim>\<open>self._result\<close>. The cursor starts at 0 and is only
  ever increased or set back to a value it had before, so it is a natural number.
  \<^verbatim>\<open>self._text\<close> and \<^verbatim>\<open>self._whitespaces\<close> are assigned once in the constructor; they are
  passed to every function as the parameters \<open>text\<close> and \<open>ws\<close>.
  A Python \<^verbatim>\<open>str\<close> is modelled by \<^typ>\<open>string\<close>, one \<^typ>\<open>char\<close> per character.
\<close>

record parser =
  pos :: nat
  result :: "ParserElement list"

text \<open>
  \<^verbatim>\<open>ParserError\<close> carries no payload. Raising it leaves the object as it was at the moment
  of the \<^verbatim>\<open>raise\<close>, so both outcomes carry the parser state: \<open>Ok v s\<close> is a normal return
  of \<open>v\<close>, \<open>Err s\<close> is a raised \<^verbatim>\<open>ParserError\<close>.
\<close>

datatype 'a res = Ok 'a parser | Err parser

fun state_of :: "'a res \<Rightarrow> parser" where
  "state_of (Ok v s) = s"
| "state_of (Err s) = s"

text \<open>Sequencing of two statements: an exception of the first skips the second.\<close>

definition seq :: "(parser \<Rightarrow> 'a res) \<Rightarrow> ('a \<Rightarrow> parser \<Rightarrow> 'b res) \<Rightarrow> parser \<Rightarrow> 'b res" where
  "seq m f s = (case m s of Ok v s' \<Rightarrow> f v s' | Err s' \<Rightarrow> Err s')"

definition ret :: "'a \<Rightarrow> parser \<Rightarrow> 'a res" where
  "ret v s = Ok v s"

section \<open>\<^verbatim>\<open>ParserBase\<close>\<close>

text \<open>
  \<^verbatim>\<open>str.lower\<close> on the characters that can take part in a match: every prefix the parser
  matches against is ASCII, and no character outside \<open>A\<close>..\<open>Z\<close> lowercases to an ASCII
  character.
\<close>

definition lower_char :: "char \<Rightarrow> char" where
  "lower_char c =
     (case map_of (zip ''ABCDEFGHIJKLMNOPQRSTUVWXYZ'' ''abcdefghijklmnopqrstuvwxyz'') c of
        Some d \<Rightarrow> d
      | None \<Rightarrow> c)"

definition lower :: "string \<Rightarrow> string" where
  "lower A = map lower_char A"

definition is_end :: "string \<Rightarrow> parser \<Rightarrow> bool" where
  "is_end text s \<longleftrightarrow> pos s \<ge> length text"

text \<open>\<^verbatim>\<open>self._text[self._pos:self._pos + len(prefix)]\<close> is a slice: it is cut at the
  end of the text and never raises.\<close>

definition match_single :: "string \<Rightarrow> string \<Rightarrow> bool \<Rightarrow> parser \<Rightarrow> bool" where
  "match_single text prefix is_impotant_register s =
     (let A = take (length prefix) (drop (pos s) text);
          B = prefix
      in if is_impotant_register then A = B else lower A = lower B)"

text \<open>\<^verbatim>\<open>_match\<close> takes a string or a list of strings; a single string is the
  one-element list.\<close>

fun match :: "string \<Rightarrow> string list \<Rightarrow> bool \<Rightarrow> parser \<Rightarrow> bool" where
  "match text [] is_impotant_register s = False"
| "match text (prefix # prefixes) is_impotant_register s =
     (if match_single text prefix is_impotant_register s then True
      else match text prefixes is_impotant_register s)"

definition skip_len :: "string \<Rightarrow> nat \<Rightarrow> parser \<Rightarrow> unit res" where
  "skip_len text cnt s =
     (if pos s + cnt > length text then Err s
      else Ok () (s\<lparr>pos := pos s + cnt\<rparr>))"

definition skip_match :: "string \<Rightarrow> string \<Rightarrow> bool \<Rightarrow> parser \<Rightarrow> unit res" where
  "skip_match text prefix is_impotant_register s =
     (if match text [prefix] is_impotant_register s then skip_len text (length prefix) s
      else Err s)"

text \<open>\<^verbatim>\<open>_char\<close>: the character under the cursor, or \<^verbatim>\<open>None\<close> at the end.\<close>

definition char_at :: "string \<Rightarrow> parser \<Rightarrow> char option" where
  "char_at text s = (if pos s < length text then Some (text ! pos s) else None)"

text \<open>\<^verbatim>\<open>_next\<close>: inside the guard \<^verbatim>\<open>_char()\<close> is the character at the cursor.\<close>

definition next_char :: "string \<Rightarrow> parser \<Rightarrow> char res" where
  "next_char text s =
     (if pos s < length text then
        (let cur = text ! pos s in Ok cur (s\<lparr>pos := pos s + 1\<rparr>))
      else Err s)"

text \<open>
  A test \<^verbatim>\<open>f(self._char())\<close> on the current character. Every such test in the source
  stands behind \<^verbatim>\<open>not self._is_end()\<close>, so \<^verbatim>\<open>_char()\<close> is never \<^verbatim>\<open>None\<close> there.
\<close>

definition char_test :: "(char \<Rightarrow> bool) \<Rightarrow> string \<Rightarrow> parser \<Rightarrow> bool" where
  "char_test f text s = (case char_at text s of Some c \<Rightarrow> f c | None \<Rightarrow> False)"

definition can_skip_whitespace :: "string \<Rightarrow> string \<Rightarrow> parser \<Rightarrow> bool" where
  "can_skip_whitespace ws text s \<longleftrightarrow>
     (\<not> is_end text s) \<and> char_test (\<lambda>c. c \<in> set ws) text s"

function try_skip_whitespaces :: "string \<Rightarrow> string \<Rightarrow> parser \<Rightarrow> unit res" where
  "try_skip_whitespaces ws text s =
     (if can_skip_whitespace ws text s then
        (case next_char text s of
           Ok c s' \<Rightarrow> try_skip_whitespaces ws text s'
         | Err s' \<Rightarrow> Err s')
      else Ok () s)"
  by pat_completeness auto

definition skip_whitespaces :: "string \<Rightarrow> string \<Rightarrow> parser \<Rightarrow> unit res" where
  "skip_whitespaces ws text s =
     (if \<not> can_skip_whitespace ws text s then Err s
      else try_skip_whitespaces ws text s)"

definition end_filter :: "string \<Rightarrow> char \<Rightarrow> bool" where
  "end_filter end character \<longleftrightarrow> \<not> (character \<in> set end)"

text \<open>The \<^verbatim>\<open>while\<close> loop of \<^verbatim>\<open>_parse_text\<close>; \<open>out\<close> is its local variable
  \<^verbatim>\<open>result\<close>.\<close>

function parse_text_while :: "string \<Rightarrow> (char \<Rightarrow> bool) \<Rightarrow> string \<Rightarrow> parser \<Rightarrow> string res" where
  "parse_text_while text text_filter out s =
     (if \<not> is_end text s \<and> char_test text_filter text s then
        (case next_char text s of
           Ok c s' \<Rightarrow> parse_text_while text text_filter (out @ [c]) s'
         | Err s' \<Rightarrow> Err s')
      else Ok out s)"
  by pat_completeness auto

definition parse_text :: "string \<Rightarrow> (char \<Rightarrow> bool) \<Rightarrow> bool \<Rightarrow> parser \<Rightarrow> string res" where
  "parse_text text text_filter min_one s =
     (if min_one then
        (if is_end text s \<or> \<not> char_test text_filter text s then Err s
         else (case next_char text s of
                 Ok c s' \<Rightarrow> parse_text_while text text_filter ([] @ [c]) s'
               | Err s' \<Rightarrow> Err s'))
      else parse_text_while text text_filter [] s)"

section \<open>The three decorators\<close>

definition parser_result_updater ::
  "string \<Rightarrow> (parser \<Rightarrow> 'a res) \<Rightarrow> parser \<Rightarrow> 'a res" where
  "parser_result_updater element_type func s =
     (let p = pos s in
      case func s of
        Ok res s' \<Rightarrow>
          (if p < pos s'
           then Ok res (s'\<lparr>result := result s' @ [\<lparr>l = p, r = pos s', type = element_type\<rparr>]\<rparr>)
           else Ok res s')
      | Err s' \<Rightarrow> Err s')"

text \<open>On \<^verbatim>\<open>ParserError\<close> the handler appends the error span and falls off its end,
  which returns \<^verbatim>\<open>None\<close>.\<close>

definition parser_error_handler :: "(parser \<Rightarrow> 'a res) \<Rightarrow> parser \<Rightarrow> 'a option res" where
  "parser_error_handler func s =
     (let p = pos s in
      case func s of
        Ok res s' \<Rightarrow> Ok (Some res) s'
      | Err s' \<Rightarrow> Ok None (s'\<lparr>result := result s' @ [\<lparr>l = p, r = pos s', type = ''error''\<rparr>]\<rparr>))"

definition parser_restorer :: "(parser \<Rightarrow> 'a res) \<Rightarrow> parser \<Rightarrow> bool res" where
  "parser_restorer func s =
     (let old_pos = pos s;
          old_result = result s
      in case func s of
           Ok res s' \<Rightarrow> Ok True s'
         | Err s' \<Rightarrow> Ok False (s'\<lparr>pos := old_pos, result := old_result\<rparr>))"

section \<open>\<^verbatim>\<open>HTMLParser\<close>\<close>

definition WHITESPACES :: string where
  "WHITESPACES = [CHR '' '', CHR 0x0A, CHR 0x09]"

text \<open>The string \<^verbatim>\<open>'!/<>"=' + HTMLParser.WHITESPACES\<close> of \<^verbatim>\<open>__skip_name\<close> and
  \<^verbatim>\<open>__skip_value\<close>.\<close>

definition name_end :: string where
  "name_end = [CHR ''!'', CHR ''/'', CHR ''<'', CHR ''>'', CHR 0x22, CHR ''=''] @ WHITESPACES"

definition skip_name :: "string \<Rightarrow> parser \<Rightarrow> string res" where
  "skip_name text = parse_text text (end_filter name_end) True"

definition skip_value :: "string \<Rightarrow> parser \<Rightarrow> string res" where
  "skip_value text s =
     (if match text [[CHR 0x22]] False s then
        seq (skip_match text [CHR 0x22] False) (\<lambda>_.
        seq (parse_text text (end_filter [CHR 0x22]) False) (\<lambda>res.
        seq (skip_match text [CHR 0x22] False) (\<lambda>_.
        ret ([CHR 0x22] @ res @ [CHR 0x22])))) s
      else parse_text text (end_filter name_end) True s)"

definition try_parse_doctype :: "string \<Rightarrow> parser \<Rightarrow> bool res" where
  "try_parse_doctype text =
     parser_restorer (parser_result_updater ''doctype''
       (seq (skip_match text ''<!doctype'' False) (\<lambda>_.
        seq (skip_whitespaces WHITESPACES text) (\<lambda>_.
        seq (parse_text text (end_filter ''>'') True) (\<lambda>_.
        skip_match text ''>'' False)))))"

definition parse_tag_name :: "string \<Rightarrow> parser \<Rightarrow> string res" where
  "parse_tag_name text = parser_result_updater ''tag_name'' (skip_name text)"

definition parse_tag_param_name :: "string \<Rightarrow> parser \<Rightarrow> string res" where
  "parse_tag_param_name text = parser_result_updater ''tag_param_name'' (skip_name text)"

definition parse_tag_param_value :: "string \<Rightarrow> parser \<Rightarrow> string res" where
  "parse_tag_param_value text = parser_result_updater ''tag_param_value'' (skip_value text)"

text \<open>\<^verbatim>\<open>if open_tag_name and ...\<close>: \<^verbatim>\<open>None\<close> and the empty string are false.\<close>

definition truthy :: "string option \<Rightarrow> bool" where
  "truthy open_tag_name \<longleftrightarrow> open_tag_name \<noteq> None \<and> open_tag_name \<noteq> Some []"

definition parse_close_tag :: "string \<Rightarrow> string option \<Rightarrow> parser \<Rightarrow> unit res" where
  "parse_close_tag text open_tag_name =
     seq (skip_match text ''</'' False) (\<lambda>_.
     seq (try_skip_whitespaces WHITESPACES text) (\<lambda>_.
     seq (parse_tag_name text) (\<lambda>close_tag_name s.
       if truthy open_tag_name \<and> open_tag_name \<noteq> Some close_tag_name then Err s
       else seq (try_skip_whitespaces WHITESPACES text) (\<lambda>_.
            skip_match text ''>'' False) s)))"

definition try_parse_close_tag2 :: "string \<Rightarrow> string option \<Rightarrow> parser \<Rightarrow> bool res" where
  "try_parse_close_tag2 text open_tag_name = parser_restorer (parse_close_tag text open_tag_name)"

definition try_parse_close_tag :: "string \<Rightarrow> string option \<Rightarrow> parser \<Rightarrow> unit option res" where
  "try_parse_close_tag text open_tag_name =
     parser_error_handler (parse_close_tag text open_tag_name)"

text \<open>The inner loop of \<^verbatim>\<open>__parse_script\<close> and \<^verbatim>\<open>__parse_style\<close>:
  \<^verbatim>\<open>while not self._is_end() and self._char() == '<': self._next()\<close>.\<close>

function lt_while :: "string \<Rightarrow> parser \<Rightarrow> unit res" where
  "lt_while text s =
     (if \<not> is_end text s \<and> char_at text s = Some CHR ''<'' then
        (case next_char text s of
           Ok c s' \<Rightarrow> lt_while text s'
         | Err s' \<Rightarrow> Err s')
      else Ok () s)"
  by pat_completeness auto

text \<open>
  The outer loop of \<^verbatim>\<open>__parse_script\<close> and of \<^verbatim>\<open>__parse_style\<close>. The two bodies in
  the source are the same text but for the literal handed to the close-tag lookahead,
  which is the parameter \<open>name\<close> here. \<^verbatim>\<open>break\<close> is the branch that returns.
\<close>

function raw_content_while :: "string \<Rightarrow> string \<Rightarrow> parser \<Rightarrow> unit res" where
  "raw_content_while text name s =
     (if \<not> is_end text s then
        (case parse_text text (end_filter ''<'') False s of
           Err s1 \<Rightarrow> Err s1
         | Ok _ s1 \<Rightarrow>
             (let lpos = pos s1 in
              case try_parse_close_tag2 text (Some name) s1 of
                Err s2 \<Rightarrow> Err s2
              | Ok found s2 \<Rightarrow>
                  if found then Ok () (s2\<lparr>pos := lpos\<rparr>)
                  else (case lt_while text s2 of
                          Err s3 \<Rightarrow> Err s3
                        | Ok _ s3 \<Rightarrow> raw_content_while text name s3)))
      else Ok () s)"
  by pat_completeness auto

definition parse_script :: "string \<Rightarrow> parser \<Rightarrow> unit res" where
  "parse_script text = parser_result_updater ''script'' (raw_content_while text ''script'')"

definition parse_style :: "string \<Rightarrow> parser \<Rightarrow> unit res" where
  "parse_style text = parser_result_updater ''style'' (raw_content_while text ''style'')"

text \<open>The loop of \<^verbatim>\<open>__try_parse_comment\<close>: \<^verbatim>\<open>while not self._match('-->'): self._next()\<close>.\<close>

function comment_while :: "string \<Rightarrow> parser \<Rightarrow> unit res" where
  "comment_while text s =
     (if \<not> match text [''-->''] False s then
        (case next_char text s of
           Ok c s' \<Rightarrow> comment_while text s'
         | Err s' \<Rightarrow> Err s')
      else Ok () s)"
  by pat_completeness auto

definition try_parse_comment :: "string \<Rightarrow> parser \<Rightarrow> bool res" where
  "try_parse_comment text =
     parser_restorer (parser_result_updater ''comment''
       (seq (skip_match text ''<!--'' False) (\<lambda>_.
        seq (try_skip_whitespaces WHITESPACES text) (\<lambda>_.
        seq (comment_while text) (\<lambda>_.
        seq (try_skip_whitespaces WHITESPACES text) (\<lambda>_.
        skip_match text ''-->'' False))))))"

definition try_parse_user_text :: "string \<Rightarrow> parser \<Rightarrow> unit res" where
  "try_parse_user_text text =
     parser_result_updater ''text''
       (seq (parse_text text (end_filter ''<'') False) (\<lambda>_. ret ()))"

definition try_parse_tag_param :: "string \<Rightarrow> parser \<Rightarrow> unit res" where
  "try_parse_tag_param text =
     seq (parse_tag_param_name text) (\<lambda>_.
     seq (try_skip_whitespaces WHITESPACES text) (\<lambda>_ s.
       if match text [''=''] False s then
         seq (skip_match text ''='' False) (\<lambda>_.
         seq (try_skip_whitespaces WHITESPACES text) (\<lambda>_.
         seq (parse_tag_param_value text) (\<lambda>_.
         try_skip_whitespaces WHITESPACES text))) s
       else Ok () s))"

function tag_params_while :: "string \<Rightarrow> parser \<Rightarrow> unit res" where
  "tag_params_while text s =
     (if \<not> is_end text s \<and> \<not> match text [''/>'', ''>''] False s then
        (case try_parse_tag_param text s of
           Err s1 \<Rightarrow> Err s1
         | Ok _ s1 \<Rightarrow>
             (case try_skip_whitespaces WHITESPACES text s1 of
                Err s2 \<Rightarrow> Err s2
              | Ok _ s2 \<Rightarrow> tag_params_while text s2))
      else Ok () s)"
  by pat_completeness auto

definition try_parse_tag_params :: "string \<Rightarrow> parser \<Rightarrow> unit option res" where
  "try_parse_tag_params text =
     parser_error_handler
       (seq (try_skip_whitespaces WHITESPACES text) (\<lambda>_.
        tag_params_while text))"

definition try_parse_open_and_close_tag :: "string \<Rightarrow> parser \<Rightarrow> bool res" where
  "try_parse_open_and_close_tag text =
     parser_restorer
       (seq (skip_match text ''<'' False) (\<lambda>_.
        seq (try_skip_whitespaces WHITESPACES text) (\<lambda>_.
        seq (parse_tag_name text) (\<lambda>name.
        seq (try_skip_whitespaces WHITESPACES text) (\<lambda>_.
        seq (try_parse_tag_params text) (\<lambda>_.
        skip_match text ''/>'' False))))))"

definition try_parse_open_tag :: "string \<Rightarrow> parser \<Rightarrow> string option res" where
  "try_parse_open_tag text =
     parser_error_handler
       (seq (skip_match text ''<'' False) (\<lambda>_.
        seq (try_skip_whitespaces WHITESPACES text) (\<lambda>_.
        seq (parse_tag_name text) (\<lambda>name.
        seq (try_skip_whitespaces WHITESPACES text) (\<lambda>_.
        seq (try_parse_tag_params text) (\<lambda>_.
        seq (skip_match text ''>'' False) (\<lambda>_.
        ret name)))))))"

text \<open>\<^verbatim>\<open>__try_parse_open_tag\<close> returns the name, or \<^verbatim>\<open>None\<close> when its handler caught
  an error; \<^verbatim>\<open>tag_name in ['script', 'style']\<close> is false for \<^verbatim>\<open>None\<close>.\<close>

definition parse_tag_block :: "string \<Rightarrow> parser \<Rightarrow> unit option res" where
  "parse_tag_block text =
     parser_error_handler (\<lambda>s.
       if match text [''</''] False s then
         seq (try_parse_close_tag text None) (\<lambda>_. ret ()) s
       else
         seq (try_parse_open_and_close_tag text) (\<lambda>closed.
           if closed then ret ()
           else
             seq (try_parse_open_tag text) (\<lambda>tag_name.
               if tag_name \<in> set [Some ''script'', Some ''style''] then
                 seq (if tag_name = Some ''script'' then parse_script text
                      else parse_style text) (\<lambda>_.
                 seq (try_parse_close_tag text tag_name) (\<lambda>_. ret ()))
               else ret ())) s)"

text \<open>One pass through the body of the loop of \<^verbatim>\<open>__try_parse_tag_blocks\<close>.\<close>

definition tag_blocks_body :: "string \<Rightarrow> parser \<Rightarrow> unit res" where
  "tag_blocks_body text =
     seq (try_parse_comment text) (\<lambda>_.
     seq (parse_tag_block text) (\<lambda>_.
     seq (try_skip_whitespaces WHITESPACES text) (\<lambda>_.
     try_parse_user_text text)))"

function try_parse_tag_blocks :: "string \<Rightarrow> parser \<Rightarrow> unit res" where
  "try_parse_tag_blocks text s =
     (if \<not> is_end text s \<and> char_at text s = Some CHR ''<'' then
        (case tag_blocks_body text s of
           Err s' \<Rightarrow> Err s'
         | Ok _ s' \<Rightarrow> try_parse_tag_blocks text s')
      else Ok () s)"
  by pat_completeness auto

definition parse :: "string \<Rightarrow> parser \<Rightarrow> unit res" where
  "parse text s =
     (seq (try_skip_whitespaces WHITESPACES text) (\<lambda>_.
      seq (try_parse_doctype text) (\<lambda>_.
      seq (try_skip_whitespaces WHITESPACES text) (\<lambda>_.
      seq (try_parse_user_text text) (\<lambda>_.
      try_parse_tag_blocks text))))) (s\<lparr>result := []\<rparr>)"

text \<open>The constructor: \<^verbatim>\<open>self._pos = 0\<close>, then \<^verbatim>\<open>self._parse()\<close>.\<close>

definition HTMLParser :: "string \<Rightarrow> unit res" where
  "HTMLParser html_text = parse html_text \<lparr>pos = 0, result = []\<rparr>"

section \<open>\<^verbatim>\<open>HTMLEditor.PositionConverter\<close>\<close>

definition str_index :: "string \<Rightarrow> char \<Rightarrow> nat \<Rightarrow> nat option" where
  "str_index text c start = List.find (\<lambda>i. text ! i = c) [start ..< length text]"

function PositionConverter_while :: "string \<Rightarrow> int \<Rightarrow> int list \<Rightarrow> int list" where
  "PositionConverter_while text last_pos n_sizes =
     (case str_index text (CHR 0x0A) (nat (last_pos + 1)) of
        None \<Rightarrow> n_sizes
      | Some new_pos \<Rightarrow>
          PositionConverter_while text (int new_pos) (n_sizes @ [int new_pos - last_pos]))"
  by pat_completeness auto

definition PositionConverter :: "string \<Rightarrow> int list" where
  "PositionConverter text = PositionConverter_while text (- 1) []"

fun convert_for :: "int list \<Rightarrow> int \<Rightarrow> int \<Rightarrow> int \<times> int" where
  "convert_for [] line index = (line, index)"
| "convert_for (i # n_sizes) line index =
     (if i \<le> index then convert_for n_sizes (line + 1) (index - i) else (line, index))"

definition digit :: "nat \<Rightarrow> char" where
  "digit n = ''0123456789'' ! n"

function str_nat :: "nat \<Rightarrow> string" where
  "str_nat n = (if n < 10 then [digit n] else str_nat (n div 10) @ [digit (n mod 10)])"
  by pat_completeness auto
termination by (relation "measure id") auto

definition str_int :: "int \<Rightarrow> string" where
  "str_int i = (if i < 0 then ''-'' @ str_nat (nat (- i)) else str_nat (nat i))"

definition convert :: "int list \<Rightarrow> int \<Rightarrow> string" where
  "convert n_sizes index =
     (case convert_for n_sizes 1 index of
        (line, index') \<Rightarrow> str_int line @ ''.'' @ str_int index')"




fun line_lengths :: "string \<Rightarrow> int \<Rightarrow> int list" where
  "line_lengths [] n = []"
| "line_lengths (c # cs) n =
     (if c = CHR 0x0A then (n + 1) # line_lengths cs 0 else line_lengths cs (n + 1))"

function convert_spec :: "int list \<Rightarrow> nat \<Rightarrow> int \<Rightarrow> int \<Rightarrow> int \<times> int" where
  "convert_spec table k line offset =
     (if k < length table \<and> table ! k \<le> offset
      then convert_spec table (k + 1) (line + 1) (offset - table ! k)
      else (line, offset))"
  by pat_completeness auto
termination by (relation "measure (\<lambda>(table, k, line, offset). length table - k)") auto


section \<open>\<^verbatim>\<open>HTMLEditor._update_colors\<close>\<close>

text \<open>
  The part of \<^verbatim>\<open>_update_colors\<close> from \<^verbatim>\<open>keys = set(...)\<close> on. The two dictionaries \<^verbatim>\<open>tags\<close>
  (the ranges the widget shows, per tag name) and \<^verbatim>\<open>tags_new\<close> (the ranges of the new
  parse) are read from Tk text widgets and are parameters here. A range is the pair of
  index strings of the source. The calls \<^verbatim>\<open>tag_remove\<close> and \<^verbatim>\<open>tag_add\<close> on the widget are
  the effect of the function; the model returns them as the list of calls, in the order
  they are made. Because that order is the order of iteration, a dictionary is an
  association list and a set of ranges a list; Python leaves the order of iteration of a
  set open, the model takes the order of the list, and no statement below depends on it.
  \<^verbatim>\<open>d[key] = v\<close> is \<open>AList.update\<close>; \<^verbatim>\<open>tags_new[key]\<close> for a key that is in neither
  dictionary would raise \<^verbatim>\<open>KeyError\<close>, which is \<open>None\<close>.
\<close>

type_synonym range = "string \<times> string"
type_synonym tag_dict = "(string \<times> range list) list"

definition difference :: "'a list \<Rightarrow> 'a list \<Rightarrow> 'a list" where
  "difference A B = filter (\<lambda>x. x \<notin> set B) A"

fun diff_for ::
  "string list \<Rightarrow> tag_dict \<Rightarrow> tag_dict \<Rightarrow> tag_dict \<Rightarrow> tag_dict \<Rightarrow> (tag_dict \<times> tag_dict) option" where
  "diff_for [] tags tags_new tags_to_remove tags_to_add = Some (tags_to_remove, tags_to_add)"
| "diff_for (key # keys) tags tags_new tags_to_remove tags_to_add =
     (case map_of tags key of
        None \<Rightarrow>
          (case map_of tags_new key of
             None \<Rightarrow> None
           | Some new \<Rightarrow>
               diff_for keys tags tags_new tags_to_remove (AList.update key new tags_to_add))
      | Some old \<Rightarrow>
          (case map_of tags_new key of
             None \<Rightarrow>
               diff_for keys tags tags_new (AList.update key old tags_to_remove) tags_to_add
           | Some new \<Rightarrow>
               diff_for keys tags tags_new
                 (AList.update key (difference old new) tags_to_remove)
                 (AList.update key (difference new old) tags_to_add)))"

datatype tag_op = tag_remove string string string | tag_add string string string

definition ops_of :: "(string \<Rightarrow> string \<Rightarrow> string \<Rightarrow> tag_op) \<Rightarrow> tag_dict \<Rightarrow> tag_op list" where
  "ops_of op d = concat (map (\<lambda>(k, v). map (\<lambda>r. op k (fst r) (snd r)) v) d)"

definition update_colors :: "tag_dict \<Rightarrow> tag_dict \<Rightarrow> tag_op list option" where
  "update_colors tags tags_new =
     (let keys = remdups (map fst tags @ map fst tags_new) in
      case diff_for keys tags tags_new [] [] of
        None \<Rightarrow> None
      | Some (tags_to_remove, tags_to_add) \<Rightarrow>
          Some (ops_of tag_remove tags_to_remove @ ops_of tag_add tags_to_add))"


text \<open>The ranges a dictionary holds for a tag name, none for a name that is not a key.\<close>

definition ranges :: "tag_dict \<Rightarrow> string \<Rightarrow> range set" where
  "ranges d key = (case map_of d key of None \<Rightarrow> {} | Some v \<Rightarrow> set v)"

fun is_remove :: "tag_op \<Rightarrow> bool" where
  "is_remove (tag_remove k a b) = True"
| "is_remove (tag_add k a b) = False"


definition addF :: "tag_dict \<Rightarrow> tag_dict \<Rightarrow> string \<Rightarrow> range list option" where
  "addF tags tags_new k =
     (case map_of tags_new k of
        None \<Rightarrow> None
      | Some new \<Rightarrow> (case map_of tags k of None \<Rightarrow> Some new | Some old \<Rightarrow> Some (difference new old)))"

definition remF :: "tag_dict \<Rightarrow> tag_dict \<Rightarrow> string \<Rightarrow> range list option" where
  "remF tags tags_new k =
     (case map_of tags k of
        None \<Rightarrow> None
      | Some old \<Rightarrow> (case map_of tags_new k of None \<Rightarrow> Some old | Some new \<Rightarrow> Some (difference old new)))"


section \<open>Well-formed spans and monotone rules\<close>

definition categories :: "string list" where
  "categories = [''doctype'', ''tag_name'', ''tag_param_name'', ''tag_param_value'',
                 ''comment'', ''text'', ''script'', ''style'', ''error'']"

definition wf_span :: "string \<Rightarrow> ParserElement \<Rightarrow> bool" where
  "wf_span text e \<longleftrightarrow> 0 \<le> l e \<and> l e \<le> r e \<and> r e \<le> length text \<and> type e \<in> set categories"

definition ext :: "string \<Rightarrow> parser \<Rightarrow> parser \<Rightarrow> bool" where
  "ext text s s' \<longleftrightarrow>
     pos s \<le> pos s' \<and>
     (\<exists>new. result s' = result s @ new \<and>
        (pos s \<le> length text \<longrightarrow> pos s' \<le> length text \<and> list_all (wf_span text) new))"

definition sound :: "string \<Rightarrow> (parser \<Rightarrow> 'a res) \<Rightarrow> bool" where
  "sound text f \<longleftrightarrow> (\<forall>s. ext text s (state_of (f s)))"


text \<open>A rule that returns normally from every state.\<close>

definition total :: "(parser \<Rightarrow> 'a res) \<Rightarrow> bool" where
  "total f \<longleftrightarrow> (\<forall>s. \<exists>v s'. f s = Ok v s')"


text \<open>A rule that leaves the span list as it is, whatever it returns.\<close>

definition keeps :: "(parser \<Rightarrow> 'a res) \<Rightarrow> bool" where
  "keeps f \<longleftrightarrow> (\<forall>s. result (state_of (f s)) = result s)"

text \<open>
  A rule whose behaviour depends on the cursor alone and whose spans are appended to
  the list it finds: run on a state with spans \<open>pre\<close>, it does what it does on the
  empty list, with \<open>pre\<close> in front.
\<close>

fun shift :: "ParserElement list \<Rightarrow> 'a res \<Rightarrow> 'a res" where
  "shift pre (Ok v s) = Ok v (s\<lparr>result := pre @ result s\<rparr>)"
| "shift pre (Err s) = Err (s\<lparr>result := pre @ result s\<rparr>)"

definition local_rule :: "(parser \<Rightarrow> 'a res) \<Rightarrow> bool" where
  "local_rule f \<longleftrightarrow> (\<forall>s. f s = shift (result s) (f (s\<lparr>result := []\<rparr>)))"


section \<open>Termination of the loops and the span invariant\<close>

termination try_skip_whitespaces
  by (relation "measure (\<lambda>(ws, text, s). length text - pos s)")
     (auto simp: next_char_def Let_def split: if_splits)

termination parse_text_while
  by (relation "measure (\<lambda>(text, f, out, s). length text - pos s)")
     (auto simp: next_char_def Let_def split: if_splits)

termination lt_while
  by (relation "measure (\<lambda>(text, s). length text - pos s)")
     (auto simp: next_char_def Let_def split: if_splits)

termination comment_while
  by (relation "measure (\<lambda>(text, s). length text - pos s)")
     (auto simp: next_char_def Let_def split: if_splits)

declare try_skip_whitespaces.simps [simp del]
declare parse_text_while.simps [simp del]
declare lt_while.simps [simp del]
declare comment_while.simps [simp del]


lemma ext_refl: "ext text s s"
  by (simp add: ext_def)

lemma ext_trans: "ext text s s' \<Longrightarrow> ext text s' s'' \<Longrightarrow> ext text s s''"
  unfolding ext_def by (elim conjE exE) (auto)

lemma ext_pos: "ext text s s' \<Longrightarrow> pos s \<le> pos s'"
  by (simp add: ext_def)

lemma ext_step: "pos s < length text \<Longrightarrow> ext text s (s\<lparr>pos := Suc (pos s)\<rparr>)"
  by (simp add: ext_def)

lemma soundD: "sound text f \<Longrightarrow> ext text s (state_of (f s))"
  by (simp add: sound_def)

lemma soundD_Ok: "sound text f \<Longrightarrow> f s = Ok v s' \<Longrightarrow> ext text s s'"
  using soundD[of "text" f s] by simp

lemma soundD_Err: "sound text f \<Longrightarrow> f s = Err s' \<Longrightarrow> ext text s s'"
  using soundD[of "text" f s] by simp

lemma soundI: "(\<And>s. ext text s (state_of (f s))) \<Longrightarrow> sound text f"
  by (simp add: sound_def)

lemma sound_seq: "sound text m \<Longrightarrow> (\<And>v. sound text (f v)) \<Longrightarrow> sound text (seq m f)"
proof (rule soundI)
  fix s
  assume m: "sound text m" and f: "\<And>v. sound text (f v)"
  show "ext text s (state_of (seq m f s))"
  proof (cases "m s")
    case (Ok v s')
    then have "ext text s s'" using m by (rule soundD_Ok[rotated])
    moreover have "ext text s' (state_of (f v s'))" using f by (rule soundD)
    ultimately show ?thesis using Ok by (auto simp: seq_def intro: ext_trans)
  next
    case (Err s')
    then show ?thesis using soundD_Err[OF m Err] by (simp add: seq_def)
  qed
qed

lemma sound_ret: "sound text (ret v)"
  by (simp add: sound_def ret_def ext_refl)

lemma sound_if: "sound text f \<Longrightarrow> sound text g \<Longrightarrow> sound text (\<lambda>s. if b s then f s else g s)"
  by (simp add: sound_def)

lemma sound_Err: "sound text Err"
  by (simp add: sound_def ext_refl)

lemma sound_Ok: "sound text (Ok v)"
  by (simp add: sound_def ext_refl)

lemma sound_result_updater:
  assumes "sound text f" and "ty \<in> set categories"
  shows "sound text (parser_result_updater ty f)"
proof (rule soundI)
  fix s
  have e: "ext text s (state_of (f s))" using assms(1) by (rule soundD)
  show "ext text s (state_of (parser_result_updater ty f s))"
  proof (cases "f s")
    case (Ok v s')
    with e assms(2) show ?thesis
      by (auto simp: parser_result_updater_def Let_def ext_def wf_span_def)
  next
    case (Err s')
    with e show ?thesis by (simp add: parser_result_updater_def Let_def)
  qed
qed

lemma sound_error_handler:
  assumes "sound text f"
  shows "sound text (parser_error_handler f)"
proof (rule soundI)
  fix s
  have e: "ext text s (state_of (f s))" using assms(1) by (rule soundD)
  show "ext text s (state_of (parser_error_handler f s))"
  proof (cases "f s")
    case (Ok v s')
    with e show ?thesis by (simp add: parser_error_handler_def Let_def)
  next
    case (Err s')
    with e show ?thesis
      by (auto simp: parser_error_handler_def Let_def ext_def wf_span_def categories_def)
  qed
qed

lemma restore_same: "s'\<lparr>pos := pos s, result := result s\<rparr> = (s::parser)"
  by (cases s, cases s') simp

lemma sound_restorer:
  assumes "sound text f"
  shows "sound text (parser_restorer f)"
proof (rule soundI)
  fix s
  have e: "ext text s (state_of (f s))" using assms(1) by (rule soundD)
  show "ext text s (state_of (parser_restorer f s))"
  proof (cases "f s")
    case (Ok v s')
    with e show ?thesis by (simp add: parser_restorer_def Let_def)
  next
    case (Err s')
    then show ?thesis by (simp add: parser_restorer_def Let_def restore_same ext_refl)
  qed
qed

lemma sound_skip_len: "sound text (skip_len text n)"
  by (rule soundI) (simp add: skip_len_def ext_def)

lemma sound_skip_match: "sound text (skip_match text p b)"
  by (rule soundI) (simp add: skip_match_def soundD[OF sound_skip_len] ext_refl)

lemma sound_next_char: "sound text (next_char text)"
  by (rule soundI) (simp add: next_char_def ext_def)

lemma sound_try_skip_whitespaces: "sound t (try_skip_whitespaces ws t)"
proof (rule soundI)
  fix s
  show "ext t s (state_of (try_skip_whitespaces ws t s))"
  proof (induction ws t s rule: try_skip_whitespaces.induct)
    case (1 ws t s)
    show ?case
    proof (cases "can_skip_whitespace ws t s")
      case False
      then show ?thesis by (simp add: try_skip_whitespaces.simps ext_refl)
    next
      case True
      show ?thesis
      proof (cases "next_char t s")
        case (Ok c s')
        have "ext t s s'" using sound_next_char Ok by (rule soundD_Ok)
        moreover have "ext t s' (state_of (try_skip_whitespaces ws t s'))"
          using "1.IH"[OF True Ok] .
        ultimately show ?thesis using True Ok
          by (subst try_skip_whitespaces.simps) (auto intro: ext_trans)
      next
        case (Err s')
        have "ext t s s'" using sound_next_char Err by (rule soundD_Err)
        then show ?thesis using True Err by (subst try_skip_whitespaces.simps) simp
      qed
    qed
  qed
qed

lemma sound_parse_text_while: "sound t (parse_text_while t f out)"
proof (rule soundI)
  fix s
  show "ext t s (state_of (parse_text_while t f out s))"
    by (induction t f out s rule: parse_text_while.induct, subst parse_text_while.simps)
       (auto simp: next_char_def Let_def ext_refl split: if_splits
             intro: ext_trans[OF ext_step])
qed

lemma sound_lt_while: "sound t (lt_while t)"
proof (rule soundI)
  fix s
  show "ext t s (state_of (lt_while t s))"
    by (induction t s rule: lt_while.induct, subst lt_while.simps)
       (auto simp: next_char_def Let_def ext_refl split: if_splits
             intro: ext_trans[OF ext_step])
qed

lemma sound_comment_while: "sound t (comment_while t)"
proof (rule soundI)
  fix s
  show "ext t s (state_of (comment_while t s))"
    by (induction t s rule: comment_while.induct, subst comment_while.simps)
       (auto simp: next_char_def Let_def ext_refl split: if_splits
             intro: ext_trans[OF ext_step])
qed

lemma sound_skip_whitespaces: "sound t (skip_whitespaces ws t)"
  by (rule soundI) (simp add: skip_whitespaces_def ext_refl soundD[OF sound_try_skip_whitespaces])

lemma sound_parse_text: "sound t (parse_text t f m)"
proof (rule soundI)
  fix s
  show "ext t s (state_of (parse_text t f m s))"
  proof (cases "next_char t s")
    case (Ok c s')
    then have "ext t s s'" by (rule soundD_Ok[OF sound_next_char])
    then have "ext t s (state_of (parse_text_while t f [c] s'))"
      by (rule ext_trans) (rule soundD[OF sound_parse_text_while])
    then show ?thesis using Ok
      by (simp add: parse_text_def ext_refl soundD[OF sound_parse_text_while])
  next
    case (Err s')
    then have "ext t s s'" by (rule soundD_Err[OF sound_next_char])
    then show ?thesis using Err
      by (simp add: parse_text_def ext_refl soundD[OF sound_parse_text_while])
  qed
qed

lemma parse_text_min_one:
  assumes "parse_text t f True s = Ok v s'"
  shows "pos s < pos s'"
proof -
  from assms obtain c s1 where n: "next_char t s = Ok c s1"
    and w: "parse_text_while t f [c] s1 = Ok v s'"
    by (auto simp: parse_text_def split: if_splits res.splits)
  from n have "pos s < pos s1" by (auto simp: next_char_def Let_def split: if_splits)
  moreover have "pos s1 \<le> pos s'" using soundD_Ok[OF sound_parse_text_while w] by (rule ext_pos)
  ultimately show ?thesis by simp
qed

lemma parse_text_while_stop:
  "parse_text_while t f out s = Ok v s' \<Longrightarrow> is_end t s' \<or> \<not> char_test f t s'"
  by (induction t f out s rule: parse_text_while.induct)
     (subst (asm) parse_text_while.simps, auto split: if_splits res.splits)

lemma parse_text_stop:
  "parse_text t f False s = Ok v s' \<Longrightarrow> is_end t s' \<or> \<not> char_test f t s'"
  by (simp add: parse_text_def parse_text_while_stop)

lemma sound_skip_name: "sound t (skip_name t)"
  by (simp add: skip_name_def sound_parse_text)

lemma sound_skip_value: "sound t (skip_value t)"
  unfolding skip_value_def
  by (intro sound_if sound_seq sound_ret sound_skip_match sound_parse_text)

lemma cat_simps:
  "''doctype'' \<in> set categories" "''tag_name'' \<in> set categories"
  "''tag_param_name'' \<in> set categories" "''tag_param_value'' \<in> set categories"
  "''comment'' \<in> set categories" "''text'' \<in> set categories"
  "''script'' \<in> set categories" "''style'' \<in> set categories"
  "''error'' \<in> set categories"
  by (simp_all add: categories_def)

lemmas sound_intros =
  sound_if sound_seq sound_ret sound_skip_match sound_parse_text sound_skip_whitespaces
  sound_try_skip_whitespaces sound_result_updater sound_error_handler sound_restorer
  sound_skip_name sound_skip_value sound_comment_while sound_lt_while sound_Err sound_Ok
  cat_simps

lemma sound_try_parse_doctype: "sound t (try_parse_doctype t)"
  unfolding try_parse_doctype_def by (intro sound_intros)

lemma sound_parse_tag_name: "sound t (parse_tag_name t)"
  unfolding parse_tag_name_def by (intro sound_intros)

lemma sound_parse_tag_param_name: "sound t (parse_tag_param_name t)"
  unfolding parse_tag_param_name_def by (intro sound_intros)

lemma sound_parse_tag_param_value: "sound t (parse_tag_param_value t)"
  unfolding parse_tag_param_value_def by (intro sound_intros)

lemma sound_parse_close_tag: "sound t (parse_close_tag t n)"
  unfolding parse_close_tag_def by (intro sound_intros sound_parse_tag_name)

lemma sound_try_parse_close_tag2: "sound t (try_parse_close_tag2 t n)"
  unfolding try_parse_close_tag2_def by (intro sound_intros sound_parse_close_tag)

lemma sound_try_parse_close_tag: "sound t (try_parse_close_tag t n)"
  unfolding try_parse_close_tag_def by (intro sound_intros sound_parse_close_tag)

lemma sound_try_parse_comment: "sound t (try_parse_comment t)"
  unfolding try_parse_comment_def by (intro sound_intros)

lemma sound_try_parse_user_text: "sound t (try_parse_user_text t)"
  unfolding try_parse_user_text_def by (intro sound_intros)

lemma sound_try_parse_tag_param: "sound t (try_parse_tag_param t)"
  unfolding try_parse_tag_param_def
  by (intro sound_intros sound_parse_tag_param_name sound_parse_tag_param_value)

lemma seq_Ok_iff:
  "seq m f s = Ok v s'' \<longleftrightarrow> (\<exists>w s'. m s = Ok w s' \<and> f w s' = Ok v s'')"
  by (auto simp: seq_def split: res.splits)

lemma result_updater_pos: "pos (state_of (parser_result_updater ty f s)) = pos (state_of (f s))"
  by (simp add: parser_result_updater_def Let_def split: res.splits)

lemma result_updater_Ok:
  "parser_result_updater ty f s = Ok v s' \<Longrightarrow> \<exists>s1. f s = Ok v s1 \<and> pos s' = pos s1"
  by (auto simp: parser_result_updater_def Let_def split: res.splits if_splits)

lemma error_handler_pos: "pos (state_of (parser_error_handler f s)) = pos (state_of (f s))"
  by (simp add: parser_error_handler_def Let_def split: res.splits)

lemma restorer_cases:
  "parser_restorer f s = Ok b s' \<Longrightarrow>
     (b \<and> (\<exists>v. f s = Ok v s')) \<or> (\<not> b \<and> s' = s \<and> (\<exists>s1. f s = Err s1))"
  by (auto simp: parser_restorer_def Let_def restore_same split: res.splits)

lemma restorer_not_Err: "parser_restorer f s \<noteq> Err s'"
  by (simp add: parser_restorer_def Let_def split: res.splits)

lemma error_handler_not_Err: "parser_error_handler f s \<noteq> Err s'"
  by (simp add: parser_error_handler_def Let_def split: res.splits)

lemma skip_match_Ok: "skip_match t p b s = Ok v s' \<Longrightarrow> pos s' = pos s + length p"
  by (auto simp: skip_match_def skip_len_def split: if_splits)

lemma try_parse_tag_param_advances:
  assumes "try_parse_tag_param t s = Ok v s'"
  shows "pos s < pos s'"
proof -
  from assms obtain w s1 where a: "parse_tag_param_name t s = Ok w s1"
    and b: "(\<lambda>s. seq (try_skip_whitespaces WHITESPACES t) (\<lambda>_ s.
       if match t [''=''] False s then
         seq (skip_match t ''='' False) (\<lambda>_.
         seq (try_skip_whitespaces WHITESPACES t) (\<lambda>_.
         seq (parse_tag_param_value t) (\<lambda>_.
         try_skip_whitespaces WHITESPACES t))) s
       else Ok () s) s) s1 = Ok v s'"
    unfolding try_parse_tag_param_def seq_Ok_iff[of "parse_tag_param_name t"] by blast
  from a obtain s0 where "skip_name t s = Ok w s0" "pos s1 = pos s0"
    unfolding parse_tag_param_name_def by (blast dest: result_updater_Ok)
  then have "pos s < pos s1" by (simp add: skip_name_def parse_text_min_one)
  moreover have "sound t (\<lambda>s. seq (try_skip_whitespaces WHITESPACES t) (\<lambda>_ s.
       if match t [''=''] False s then
         seq (skip_match t ''='' False) (\<lambda>_.
         seq (try_skip_whitespaces WHITESPACES t) (\<lambda>_.
         seq (parse_tag_param_value t) (\<lambda>_.
         try_skip_whitespaces WHITESPACES t))) s
       else Ok () s) s)"
    by (intro sound_intros sound_parse_tag_param_value)
  from soundD_Ok[OF this b] have "pos s1 \<le> pos s'" by (rule ext_pos)
  ultimately show ?thesis by simp
qed

termination tag_params_while
proof (relation "measure (\<lambda>(t, s). length t - pos s)", goal_cases)
  case 1
  show ?case by simp
next
  case (2 t s x s1 y s2)
  have "pos s < pos s1" using 2(2) by (rule try_parse_tag_param_advances)
  moreover have "pos s1 \<le> pos s2"
    using soundD_Ok[OF sound_try_skip_whitespaces 2(3)] by (rule ext_pos)
  moreover have "pos s < length t" using 2(1) by (simp add: is_end_def)
  ultimately show ?case by simp
qed

declare tag_params_while.simps [simp del]

lemma lt_while_advances:
  "lt_while t s = Ok v s' \<Longrightarrow> char_at t s = Some CHR ''<'' \<Longrightarrow> pos s < pos s'"
proof -
  assume a: "lt_while t s = Ok v s'" and c: "char_at t s = Some CHR ''<''"
  from c have ne: "\<not> is_end t s" by (auto simp: char_at_def is_end_def split: if_splits)
  from a c ne obtain ch s1 where n: "next_char t s = Ok ch s1" and w: "lt_while t s1 = Ok v s'"
    by (subst (asm) lt_while.simps) (auto split: res.splits)
  from n have "pos s < pos s1" by (auto simp: next_char_def Let_def split: if_splits)
  moreover have "pos s1 \<le> pos s'" using soundD_Ok[OF sound_lt_while w] by (rule ext_pos)
  ultimately show ?thesis by simp
qed

termination raw_content_while
proof (relation "measure (\<lambda>(t, name, s). length t - pos s)", goal_cases)
  case 1
  show ?case by simp
next
  case (2 t name s x s1 lpos found s2 y s3)
  have lt: "pos s < length t" using 2(1) by (simp add: is_end_def)
  have a: "pos s \<le> pos s1" using soundD_Ok[OF sound_parse_text 2(2)] by (rule ext_pos)
  have stop: "is_end t s1 \<or> \<not> char_test (end_filter ''<'') t s1"
    using 2(2) by (rule parse_text_stop)
  have same: "s2 = s1"
    using restorer_cases[OF 2(4)[unfolded try_parse_close_tag2_def]] 2(5) by simp
  have b: "pos s1 \<le> pos s3"
    using soundD_Ok[OF sound_lt_while 2(6)] same by (simp add: ext_pos)
  have "pos s < pos s3"
  proof (cases "is_end t s1")
    case True
    then show ?thesis using lt b by (simp add: is_end_def)
  next
    case False
    with stop have "char_at t s1 = Some CHR ''<''"
      by (auto simp: char_test_def end_filter_def char_at_def is_end_def split: if_splits)
    then have "pos s1 < pos s3" using lt_while_advances[OF 2(6)] same by simp
    with a show ?thesis by simp
  qed
  with lt show ?case by simp
qed

declare raw_content_while.simps [simp del]

lemma sound_tag_params_while: "sound t (tag_params_while t)"
proof (rule soundI)
  fix s
  show "ext t s (state_of (tag_params_while t s))"
  proof (induction t s rule: tag_params_while.induct)
    case (1 t s)
    show ?case
    proof (cases "\<not> is_end t s \<and> \<not> match t [''/>'', ''>''] False s")
      case False
      then show ?thesis by (subst tag_params_while.simps) (auto simp: ext_refl)
    next
      case True
      show ?thesis
      proof (cases "try_parse_tag_param t s")
        case (Err s1)
        then show ?thesis using True soundD_Err[OF sound_try_parse_tag_param Err]
          by (subst tag_params_while.simps) simp
      next
        case (Ok x s1)
        note e1 = soundD_Ok[OF sound_try_parse_tag_param Ok]
        show ?thesis
        proof (cases "try_skip_whitespaces WHITESPACES t s1")
          case (Err s2)
          then show ?thesis
            using True Ok ext_trans[OF e1 soundD_Err[OF sound_try_skip_whitespaces Err]]
            by (subst tag_params_while.simps) simp
        next
          case Ok2: (Ok y s2)
          have "ext t s s2"
            using ext_trans[OF e1 soundD_Ok[OF sound_try_skip_whitespaces Ok2]] .
          then have "ext t s (state_of (tag_params_while t s2))"
            using "1.IH"[OF True Ok Ok2] by (rule ext_trans)
          then show ?thesis using True Ok Ok2
            by (subst tag_params_while.simps) simp
        qed
      qed
    qed
  qed
qed

lemma ext_reset:
  assumes "ext t s s1" "ext t s1 s2"
  shows "ext t s (s2\<lparr>pos := pos s1\<rparr>)"
proof -
  from assms(2) have "ext t s1 (s2\<lparr>pos := pos s1\<rparr>)" by (auto simp: ext_def)
  with assms(1) show ?thesis by (rule ext_trans)
qed

lemma sound_raw_content_while: "sound t (raw_content_while t name)"
proof (rule soundI)
  fix s
  show "ext t s (state_of (raw_content_while t name s))"
  proof (induction t name s rule: raw_content_while.induct)
    case (1 t name s)
    show ?case
    proof (cases "is_end t s")
      case True
      then show ?thesis by (subst raw_content_while.simps) (simp add: ext_refl)
    next
      case False
      show ?thesis
      proof (cases "parse_text t (end_filter ''<'') False s")
        case (Err s1)
        then show ?thesis using False soundD_Err[OF sound_parse_text Err]
          by (subst raw_content_while.simps) simp
      next
        case (Ok x s1)
        note e1 = soundD_Ok[OF sound_parse_text Ok]
        show ?thesis
        proof (cases "try_parse_close_tag2 t (Some name) s1")
          case (Err s2)
          then show ?thesis by (simp add: try_parse_close_tag2_def restorer_not_Err)
        next
          case Ok2: (Ok found s2)
          note e2 = soundD_Ok[OF sound_try_parse_close_tag2 Ok2]
          show ?thesis
          proof (cases found)
            case True
            then show ?thesis using False Ok Ok2 ext_reset[OF e1 e2]
              by (subst raw_content_while.simps) simp
          next
            case nf: False
            show ?thesis
            proof (cases "lt_while t s2")
              case (Err s3)
              then show ?thesis
                using False Ok Ok2 nf
                  ext_trans[OF ext_trans[OF e1 e2] soundD_Err[OF sound_lt_while Err]]
                by (subst raw_content_while.simps) simp
            next
              case Ok3: (Ok y s3)
              have "ext t s s3"
                using ext_trans[OF ext_trans[OF e1 e2] soundD_Ok[OF sound_lt_while Ok3]] .
              then have "ext t s (state_of (raw_content_while t name s3))"
                using "1.IH"[OF False Ok refl Ok2 _ Ok3] nf by (auto intro: ext_trans)
              then show ?thesis using False Ok Ok2 nf Ok3
                by (subst raw_content_while.simps) simp
            qed
          qed
        qed
      qed
    qed
  qed
qed

lemma sound_if_const:
  "(b \<Longrightarrow> sound t f) \<Longrightarrow> (\<not> b \<Longrightarrow> sound t g) \<Longrightarrow> sound t (if b then f else g)"
  by simp

lemma sound_parse_script: "sound t (parse_script t)"
  unfolding parse_script_def by (intro sound_intros sound_raw_content_while)

lemma sound_parse_style: "sound t (parse_style t)"
  unfolding parse_style_def by (intro sound_intros sound_raw_content_while)

lemma sound_try_parse_tag_params: "sound t (try_parse_tag_params t)"
  unfolding try_parse_tag_params_def by (intro sound_intros sound_tag_params_while)

lemma sound_try_parse_open_and_close_tag: "sound t (try_parse_open_and_close_tag t)"
  unfolding try_parse_open_and_close_tag_def
  by (intro sound_intros sound_parse_tag_name sound_try_parse_tag_params)

lemma sound_try_parse_open_tag: "sound t (try_parse_open_tag t)"
  unfolding try_parse_open_tag_def
  by (intro sound_intros sound_parse_tag_name sound_try_parse_tag_params)

lemma sound_parse_tag_block: "sound t (parse_tag_block t)"
  unfolding parse_tag_block_def
  by (intro sound_intros sound_if_const sound_try_parse_close_tag
        sound_try_parse_open_and_close_tag sound_try_parse_open_tag sound_parse_script
        sound_parse_style)

lemma sound_tag_blocks_body: "sound t (tag_blocks_body t)"
  unfolding tag_blocks_body_def
  by (intro sound_intros sound_try_parse_comment sound_parse_tag_block
        sound_try_parse_user_text)

lemma match_one: "match t [p] b s \<longleftrightarrow> match_single t p b s"
  by simp

lemma match_two: "match t [p, q] b s \<longleftrightarrow> match_single t p b s \<or> match_single t q b s"
  by simp

declare match.simps [simp del]

lemma match_length:
  assumes "match t [p] b s" and "p \<noteq> []"
  shows "pos s + length p \<le> length t"
proof -
  let ?A = "take (length p) (drop (pos s) t)"
  have "length ?A = length p"
  proof (cases b)
    case True
    with assms have "?A = p" by (simp add: match_one match_single_def)
    then show ?thesis by (rule arg_cong)
  next
    case False
    with assms have "map lower_char ?A = map lower_char p"
      by (simp add: match_one match_single_def lower_def)
    then show ?thesis by (rule map_eq_imp_length_eq)
  qed
  with assms(2) show ?thesis by (cases p) auto
qed

lemma match_skip:
  "match t [p] b s \<Longrightarrow> p \<noteq> [] \<Longrightarrow>
     skip_match t p b s = Ok () (s\<lparr>pos := pos s + length p\<rparr>)"
  using match_length[of t p b s] by (simp add: skip_match_def skip_len_def)

lemma match_lt:
  assumes "char_at t s = Some CHR ''<''"
  shows "match t [''<''] False s"
proof -
  from assms have "pos s < length t" and "t ! pos s = CHR ''<''"
    by (auto simp: char_at_def split: if_splits)
  then have "drop (pos s) t = CHR ''<'' # drop (Suc (pos s)) t"
    by (simp add: Cons_nth_drop_Suc[symmetric])
  then show ?thesis by (simp add: match_one match_single_def)
qed

lemma seq_first_Ok:
  assumes "m s = Ok v s1" and "\<And>v. sound t (f v)"
  shows "pos s1 \<le> pos (state_of (seq m f s))"
proof -
  have "ext t s1 (state_of (f v s1))" by (rule soundD[OF assms(2)])
  then show ?thesis using assms(1) by (simp add: seq_def ext_pos)
qed

lemma seq_skip_match_advances:
  assumes "match t [p] b s" and "p \<noteq> []" and "\<And>v. sound t (f v)"
  shows "pos s + length p \<le> pos (state_of (seq (skip_match t p b) f s))"
proof -
  have "pos (s\<lparr>pos := pos s + length p\<rparr>) \<le> pos (state_of (seq (skip_match t p b) f s))"
    using match_skip[OF assms(1,2)] assms(3) by (rule seq_first_Ok)
  then show ?thesis by simp
qed

lemma seq_Ok_skip_match_advances:
  assumes "seq (skip_match t p b) f s = Ok v s'" and "\<And>v. sound t (f v)"
  shows "pos s + length p \<le> pos s'"
proof -
  from assms(1) obtain w s1 where a: "skip_match t p b s = Ok w s1" and c: "f w s1 = Ok v s'"
    unfolding seq_Ok_iff by blast
  have "pos s1 \<le> pos s'" using soundD_Ok[OF assms(2) c] by (rule ext_pos)
  with skip_match_Ok[OF a] show ?thesis by simp
qed

lemma open_and_close_tag_advances:
  assumes "try_parse_open_and_close_tag t s = Ok True s'"
  shows "pos s < pos s'"
proof -
  from restorer_cases[OF assms[unfolded try_parse_open_and_close_tag_def]]
  obtain v where
    "seq (skip_match t ''<'' False) (\<lambda>_.
        seq (try_skip_whitespaces WHITESPACES t) (\<lambda>_.
        seq (parse_tag_name t) (\<lambda>name.
        seq (try_skip_whitespaces WHITESPACES t) (\<lambda>_.
        seq (try_parse_tag_params t) (\<lambda>_.
        skip_match t ''/>'' False))))) s = Ok v s'" by auto
  then have "pos s + length ''<'' \<le> pos s'"
    by (rule seq_Ok_skip_match_advances)
       (intro sound_intros sound_parse_tag_name sound_try_parse_tag_params)
  then show ?thesis by simp
qed

lemma open_tag_advances:
  assumes "char_at t s = Some CHR ''<''"
  shows "pos s < pos (state_of (try_parse_open_tag t s))"
proof -
  have "pos s + length ''<'' \<le> pos (state_of (seq (skip_match t ''<'' False) (\<lambda>_.
        seq (try_skip_whitespaces WHITESPACES t) (\<lambda>_.
        seq (parse_tag_name t) (\<lambda>name.
        seq (try_skip_whitespaces WHITESPACES t) (\<lambda>_.
        seq (try_parse_tag_params t) (\<lambda>_.
        seq (skip_match t ''>'' False) (\<lambda>_.
        ret name)))))) s))"
    by (rule seq_skip_match_advances[OF match_lt[OF assms]], simp)
       (intro sound_intros sound_parse_tag_name sound_try_parse_tag_params)
  then show ?thesis by (simp add: try_parse_open_tag_def error_handler_pos)
qed

lemma close_tag_advances:
  assumes "match t [''</''] False s"
  shows "pos s < pos (state_of (try_parse_close_tag t n s))"
proof -
  have "pos s + length ''</'' \<le> pos (state_of (parse_close_tag t n s))"
    unfolding parse_close_tag_def
    by (rule seq_skip_match_advances[OF assms], simp) (intro sound_intros sound_parse_tag_name)
  then show ?thesis by (simp add: try_parse_close_tag_def error_handler_pos)
qed

lemma parse_tag_block_advances:
  assumes c: "char_at t s = Some CHR ''<''"
  shows "pos s < pos (state_of (parse_tag_block t s))"
proof (cases "match t [''</''] False s")
  case True
  obtain w s1 where k: "try_parse_close_tag t None s = Ok w s1"
    by (cases "try_parse_close_tag t None s")
       (auto simp: try_parse_close_tag_def error_handler_not_Err)
  with close_tag_advances[OF True, of None] have "pos s < pos s1" by simp
  then show ?thesis using True k
    by (simp add: parse_tag_block_def error_handler_pos seq_def ret_def)
next
  case False
  obtain closed s1 where k: "try_parse_open_and_close_tag t s = Ok closed s1"
    by (cases "try_parse_open_and_close_tag t s")
       (auto simp: try_parse_open_and_close_tag_def restorer_not_Err)
  show ?thesis
  proof (cases closed)
    case True
    with k have "pos s < pos s1" by (simp add: open_and_close_tag_advances)
    then show ?thesis using False k True
      by (simp add: parse_tag_block_def error_handler_pos seq_def ret_def)
  next
    case nc: False
    with k have same: "s1 = s"
      using restorer_cases[OF k[unfolded try_parse_open_and_close_tag_def]] by simp
    obtain tag s2 where o: "try_parse_open_tag t s = Ok tag s2"
      by (cases "try_parse_open_tag t s")
         (auto simp: try_parse_open_tag_def error_handler_not_Err)
    with open_tag_advances[OF c] have adv: "pos s < pos s2" by simp
    let ?k = "\<lambda>tag_name.
               if tag_name \<in> set [Some ''script'', Some ''style''] then
                 seq (if tag_name = Some ''script'' then parse_script t
                      else parse_style t) (\<lambda>_.
                 seq (try_parse_close_tag t tag_name) (\<lambda>_. ret ()))
               else ret ()"
    have "sound t (?k tag)"
      by (auto intro!: sound_intros sound_parse_script sound_parse_style
            sound_try_parse_close_tag)
    then have "pos s2 \<le> pos (state_of (?k tag s2))" by (intro ext_pos soundD)
    with adv have "pos s < pos (state_of (?k tag s2))" by simp
    then show ?thesis using False k nc same o
      by (simp add: parse_tag_block_def error_handler_pos seq_def ret_def)
  qed
qed

lemma comment_advances:
  assumes "try_parse_comment t s = Ok True s'"
  shows "pos s < pos s'"
proof -
  from restorer_cases[OF assms[unfolded try_parse_comment_def]]
  obtain v s1 where
    "seq (skip_match t ''<!--'' False) (\<lambda>_.
        seq (try_skip_whitespaces WHITESPACES t) (\<lambda>_.
        seq (comment_while t) (\<lambda>_.
        seq (try_skip_whitespaces WHITESPACES t) (\<lambda>_.
        skip_match t ''-->'' False)))) s = Ok v s1" and "pos s' = pos s1"
    by (auto dest!: result_updater_Ok)
  moreover from this(1) have "pos s + length ''<!--'' \<le> pos s1"
    by (rule seq_Ok_skip_match_advances) (intro sound_intros)
  ultimately show ?thesis by simp
qed

lemma tag_blocks_body_advances:
  assumes c: "char_at t s = Some CHR ''<''"
  shows "pos s < pos (state_of (tag_blocks_body t s))"
proof -
  obtain b s1 where k: "try_parse_comment t s = Ok b s1"
    by (cases "try_parse_comment t s") (auto simp: try_parse_comment_def restorer_not_Err)
  let ?rest = "\<lambda>_::bool. seq (parse_tag_block t) (\<lambda>_.
     seq (try_skip_whitespaces WHITESPACES t) (\<lambda>_.
     try_parse_user_text t))"
  have body: "tag_blocks_body t s = ?rest b s1"
    using k by (simp add: tag_blocks_body_def seq_def)
  have snd: "sound t (?rest b)"
    by (intro sound_intros sound_parse_tag_block sound_try_parse_user_text)
  show ?thesis
  proof (cases b)
    case True
    with k have "pos s < pos s1" by (simp add: comment_advances)
    moreover have "pos s1 \<le> pos (state_of (?rest b s1))" using snd by (intro ext_pos soundD)
    ultimately show ?thesis using body by simp
  next
    case False
    with k have same: "s1 = s"
      using restorer_cases[OF k[unfolded try_parse_comment_def]] by simp
    obtain w s2 where tb: "parse_tag_block t s = Ok w s2"
      by (cases "parse_tag_block t s") (auto simp: parse_tag_block_def error_handler_not_Err)
    with parse_tag_block_advances[OF c] have "pos s < pos s2" by simp
    moreover have "pos s2 \<le> pos (state_of (seq (parse_tag_block t) (\<lambda>_.
        seq (try_skip_whitespaces WHITESPACES t) (\<lambda>_. try_parse_user_text t)) s))"
      by (rule seq_first_Ok[where m = "parse_tag_block t" and t = t, OF tb]) (intro sound_intros sound_try_parse_user_text)
    ultimately show ?thesis using body same by simp
  qed
qed

termination try_parse_tag_blocks
proof (relation "measure (\<lambda>(t, s). length t - pos s)", goal_cases)
  case 1
  show ?case by simp
next
  case (2 t s x s')
  from 2(1) have "char_at t s = Some CHR ''<''" and "pos s < length t"
    by (simp_all add: is_end_def)
  with tag_blocks_body_advances[of t s] 2(2) show ?case by simp
qed

declare try_parse_tag_blocks.simps [simp del]

lemma sound_try_parse_tag_blocks: "sound t (try_parse_tag_blocks t)"
proof (rule soundI)
  fix s
  show "ext t s (state_of (try_parse_tag_blocks t s))"
  proof (induction t s rule: try_parse_tag_blocks.induct)
    case (1 t s)
    show ?case
    proof (cases "\<not> is_end t s \<and> char_at t s = Some CHR ''<''")
      case False
      then show ?thesis by (subst try_parse_tag_blocks.simps) (auto simp: ext_refl)
    next
      case True
      show ?thesis
      proof (cases "tag_blocks_body t s")
        case (Err s1)
        then show ?thesis using True soundD_Err[OF sound_tag_blocks_body Err]
          by (subst try_parse_tag_blocks.simps) simp
      next
        case (Ok x s1)
        have "ext t s (state_of (try_parse_tag_blocks t s1))"
          using soundD_Ok[OF sound_tag_blocks_body Ok] "1.IH"[OF True Ok] by (rule ext_trans)
        then show ?thesis using True Ok
          by (subst try_parse_tag_blocks.simps) simp
      qed
    qed
  qed
qed

lemma sound_doc:
  "sound t (seq (try_skip_whitespaces WHITESPACES t) (\<lambda>_.
      seq (try_parse_doctype t) (\<lambda>_.
      seq (try_skip_whitespaces WHITESPACES t) (\<lambda>_.
      seq (try_parse_user_text t) (\<lambda>_.
      try_parse_tag_blocks t)))))"
  by (intro sound_intros sound_try_parse_doctype sound_try_parse_user_text
        sound_try_parse_tag_blocks)

section \<open>The position converter\<close>

lemma str_index_Some:
  assumes "str_index t c k = Some i"
  shows "k \<le> i \<and> i < length t \<and> t ! i = c \<and> (\<forall>j. k \<le> j \<and> j < i \<longrightarrow> t ! j \<noteq> c)"
proof -
  from assms obtain n where n: "n < length t - k" "t ! (k + n) = c" "i = k + n"
    and m: "\<forall>j<n. t ! (k + j) \<noteq> c"
    unfolding str_index_def find_Some_iff by (auto simp: nth_upt)
  have "t ! j \<noteq> c" if "k \<le> j" "j < i" for j
  proof -
    from that n have "j - k < n" by simp
    with m have "t ! (k + (j - k)) \<noteq> c" by blast
    with that show ?thesis by simp
  qed
  with n show ?thesis by auto
qed

lemma str_index_None: "str_index t c k = None \<Longrightarrow> c \<notin> set (drop k t)"
  unfolding str_index_def find_None_iff by (auto simp: in_set_conv_nth)

termination PositionConverter_while
proof (relation "measure (\<lambda>(t, last_pos, n). length t - nat (last_pos + 1))", goal_cases)
  case 1
  show ?case by simp
next
  case (2 t last_pos n_sizes new_pos)
  from str_index_Some[OF 2] show ?case by auto
qed


declare convert_spec.simps [simp del]
declare PositionConverter_while.simps [simp del]

lemma convert_for_spec:
  "convert_for (drop k table) line offset = convert_spec table k line offset"
proof (induction table k line offset rule: convert_spec.induct)
  case (1 table k line offset)
  show ?case
  proof (cases "k < length table")
    case True
    then have d: "drop k table = table ! k # drop (Suc k) table"
      by (simp add: Cons_nth_drop_Suc)
    show ?thesis using True d 1
      by (subst convert_spec.simps) auto
  next
    case False
    then show ?thesis by (subst convert_spec.simps) simp
  qed
qed

lemma line_lengths_no_newline:
  "CHR 0x0A \<notin> set xs \<Longrightarrow> line_lengths xs n = []"
  by (induction xs arbitrary: n) auto

lemma line_lengths_prefix:
  "CHR 0x0A \<notin> set xs \<Longrightarrow>
     line_lengths (xs @ CHR 0x0A # ys) n = (n + int (length xs) + 1) # line_lengths ys 0"
  by (induction xs arbitrary: n) auto

lemma PositionConverter_while_spec:
  "k \<le> length t \<Longrightarrow>
     PositionConverter_while t (int k - 1) acc = acc @ line_lengths (drop k t) 0"
proof (induction t "int k - 1" acc arbitrary: k rule: PositionConverter_while.induct)
  case (1 t n_sizes)
  show ?case
  proof (cases "str_index t (CHR 0x0A) k")
    case None
    then show ?thesis
      by (subst PositionConverter_while.simps)
         (simp add: line_lengths_no_newline[OF str_index_None])
  next
    case (Some i)
    from str_index_Some[OF Some] have i: "k \<le> i" "i < length t" "t ! i = CHR 0x0A"
      and no: "\<forall>j. k \<le> j \<and> j < i \<longrightarrow> t ! j \<noteq> CHR 0x0A" by auto
    have split: "drop k t = take (i - k) (drop k t) @ CHR 0x0A # drop (Suc i) t"
      using i by (metis Cons_nth_drop_Suc add_diff_cancel_left' append_take_drop_id drop_drop le_Suc_ex add.commute)
    have nonl: "CHR 0x0A \<notin> set (take (i - k) (drop k t))"
      using no i by (auto simp: in_set_conv_nth)
    have len: "length (take (i - k) (drop k t)) = i - k" using i by simp
    have ll: "line_lengths (drop k t) 0 = (int i - int k + 1) # line_lengths (drop (Suc i) t) 0"
      using line_lengths_prefix[OF nonl, of "drop (Suc i) t" 0] split len i by (simp add: of_nat_diff)
    have ih: "PositionConverter_while t (int (Suc i) - 1) (n_sizes @ [int i - (int k - 1)])
        = (n_sizes @ [int i - (int k - 1)]) @ line_lengths (drop (Suc i) t) 0"
      using 1(1)[of i "Suc i"] Some i by simp
    show ?thesis
      using Some ih ll by (subst PositionConverter_while.simps) simp
  qed
qed

section \<open>No exception escapes, and the parse ends at the end of the buffer\<close>

lemma totalD: "total f \<Longrightarrow> \<exists>v s'. f s = Ok v s'"
  by (simp add: total_def)

lemma totalI: "(\<And>s. \<exists>v s'. f s = Ok v s') \<Longrightarrow> total f"
  by (simp add: total_def)

lemma total_seq: "total m \<Longrightarrow> (\<And>v. total (f v)) \<Longrightarrow> total (seq m f)"
proof (rule totalI)
  fix s
  assume m: "total m" and f: "\<And>v. total (f v)"
  from totalD[OF m] obtain v s1 where "m s = Ok v s1" by blast
  moreover from totalD[OF f] obtain w s2 where "f v s1 = Ok w s2" by blast
  ultimately show "\<exists>v s'. seq m f s = Ok v s'" by (simp add: seq_def)
qed

lemma total_ret: "total (ret v)"
  by (simp add: total_def ret_def)

lemma total_restorer: "total (parser_restorer f)"
proof (rule totalI)
  fix s
  show "\<exists>v s'. parser_restorer f s = Ok v s'"
    by (cases "f s") (auto simp: parser_restorer_def Let_def)
qed

lemma total_error_handler: "total (parser_error_handler f)"
proof (rule totalI)
  fix s
  show "\<exists>v s'. parser_error_handler f s = Ok v s'"
    by (cases "f s") (simp_all add: parser_error_handler_def Let_def)
qed

lemma total_result_updater:
  assumes "total f"
  shows "total (parser_result_updater ty f)"
proof (rule totalI)
  fix s
  from totalD[OF assms] obtain v s1 where "f s = Ok v s1" by blast
  then show "\<exists>v s'. parser_result_updater ty f s = Ok v s'"
    by (simp add: parser_result_updater_def Let_def)
qed

lemma total_try_skip_whitespaces: "total (try_skip_whitespaces ws t)"
proof (rule totalI)
  fix s
  show "\<exists>v s'. try_skip_whitespaces ws t s = Ok v s'"
    by (induction ws t s rule: try_skip_whitespaces.induct, subst try_skip_whitespaces.simps)
       (auto simp: next_char_def Let_def can_skip_whitespace_def is_end_def)
qed

lemma total_parse_text_while: "total (parse_text_while t f out)"
proof (rule totalI)
  fix s
  show "\<exists>v s'. parse_text_while t f out s = Ok v s'"
    by (induction t f out s rule: parse_text_while.induct, subst parse_text_while.simps)
       (auto simp: next_char_def Let_def is_end_def)
qed

lemma total_parse_text: "total (parse_text t f False)"
  using total_parse_text_while[of t f "[]"] by (simp add: total_def parse_text_def)

lemma total_try_parse_user_text: "total (try_parse_user_text t)"
  unfolding try_parse_user_text_def
  by (intro total_result_updater total_seq total_parse_text total_ret)

lemma total_tag_blocks_body: "total (tag_blocks_body t)"
  unfolding tag_blocks_body_def try_parse_comment_def parse_tag_block_def
  by (intro total_seq total_restorer total_error_handler total_try_skip_whitespaces
        total_try_parse_user_text)

lemma user_text_stop:
  assumes "try_parse_user_text t s = Ok v s'"
  shows "is_end t s' \<or> char_at t s' = Some CHR ''<''"
proof -
  from assms obtain w s1 where p: "parse_text t (end_filter ''<'') False s = Ok w s1"
    and e: "pos s' = pos s1"
    unfolding try_parse_user_text_def
    by (auto simp: seq_Ok_iff ret_def dest!: result_updater_Ok)
  from parse_text_stop[OF p] have "is_end t s1 \<or> char_at t s1 = Some CHR ''<''"
    by (auto simp: char_test_def end_filter_def char_at_def is_end_def split: if_splits)
  moreover from e have "is_end t s' = is_end t s1" "char_at t s' = char_at t s1"
    by (simp_all add: is_end_def char_at_def)
  ultimately show ?thesis by simp
qed

lemma tag_blocks_body_stop:
  assumes "tag_blocks_body t s = Ok v s'"
  shows "is_end t s' \<or> char_at t s' = Some CHR ''<''"
proof -
  from assms obtain w s1 where "try_parse_user_text t s1 = Ok w s'"
    unfolding tag_blocks_body_def by (auto simp: seq_Ok_iff)
  then show ?thesis by (rule user_text_stop)
qed

lemma try_parse_tag_blocks_end:
  "is_end t s \<or> char_at t s = Some CHR ''<'' \<Longrightarrow>
     \<exists>s'. try_parse_tag_blocks t s = Ok () s' \<and> is_end t s'"
proof (induction t s rule: try_parse_tag_blocks.induct)
  case (1 t s)
  show ?case
  proof (cases "is_end t s")
    case True
    then show ?thesis by (subst try_parse_tag_blocks.simps) simp
  next
    case False
    with 1(2) have c: "char_at t s = Some CHR ''<''" by simp
    from totalD[OF total_tag_blocks_body] obtain v s1 where b: "tag_blocks_body t s = Ok v s1"
      by blast
    from "1.IH"[OF _ b tag_blocks_body_stop[OF b]] False c
    obtain s' where "try_parse_tag_blocks t s1 = Ok () s'" "is_end t s'" by auto
    then show ?thesis using False c b by (subst try_parse_tag_blocks.simps) simp
  qed
qed

lemma parse_end:
  assumes "pos s \<le> length t"
  shows "\<exists>spans. parse t s = Ok () \<lparr>pos = length t, result = spans\<rparr>"
proof -
  let ?s0 = "s\<lparr>result := []\<rparr>"
  from totalD[OF total_try_skip_whitespaces, of WHITESPACES t ?s0]
  obtain s1 where a: "try_skip_whitespaces WHITESPACES t ?s0 = Ok () s1" by auto
  obtain d s2 where b: "try_parse_doctype t s1 = Ok d s2"
    unfolding try_parse_doctype_def using totalD[OF total_restorer] by blast
  from totalD[OF total_try_skip_whitespaces, of WHITESPACES t s2]
  obtain s3 where c: "try_skip_whitespaces WHITESPACES t s2 = Ok () s3" by auto
  from totalD[OF total_try_parse_user_text, of t s3]
  obtain s4 where u: "try_parse_user_text t s3 = Ok () s4" by auto
  from try_parse_tag_blocks_end[OF user_text_stop[OF u]]
  obtain s' where tb: "try_parse_tag_blocks t s4 = Ok () s'" and e: "is_end t s'" by blast
  have eq: "parse t s = Ok () s'"
    using a b c u tb by (simp add: parse_def seq_def)
  have "ext t ?s0 (state_of (parse t s))"
    using soundD[OF sound_doc, of t ?s0] by (simp add: parse_def)
  with eq assms have "pos s' \<le> length t" by (auto simp: ext_def)
  with e have "pos s' = length t" by (simp add: is_end_def)
  then have "s' = \<lparr>pos = length t, result = result s'\<rparr>" by (cases s') simp
  with eq show ?thesis by metis
qed


lemma raw_content_progress:
  assumes "\<not> is_end t s"
    and "parse_text t (end_filter ''<'') False s = Ok v s1"
    and "try_parse_close_tag2 t (Some name) s1 = Ok False s2"
    and "lt_while t s2 = Ok w s3"
  shows "pos s < pos s3"
proof -
  have lt: "pos s < length t" using assms(1) by (simp add: is_end_def)
  have a: "pos s \<le> pos s1" using soundD_Ok[OF sound_parse_text assms(2)] by (rule ext_pos)
  have stop: "is_end t s1 \<or> \<not> char_test (end_filter ''<'') t s1"
    using assms(2) by (rule parse_text_stop)
  have same: "s2 = s1"
    using restorer_cases[OF assms(3)[unfolded try_parse_close_tag2_def]] by simp
  have b: "pos s1 \<le> pos s3"
    using soundD_Ok[OF sound_lt_while assms(4)] same by (simp add: ext_pos)
  show ?thesis
  proof (cases "is_end t s1")
    case True
    then show ?thesis using lt b by (simp add: is_end_def)
  next
    case False
    with stop have "char_at t s1 = Some CHR ''<''"
      by (auto simp: char_test_def end_filter_def char_at_def is_end_def split: if_splits)
    then have "pos s1 < pos s3" using lt_while_advances[OF assms(4)] same by simp
    with a show ?thesis by simp
  qed
qed

lemma tag_blocks_body_Ok:
  assumes "char_at t s = Some CHR ''<''"
  shows "\<exists>s'. tag_blocks_body t s = Ok () s' \<and> pos s < pos s'"
proof -
  from totalD[OF total_tag_blocks_body, of t s]
  obtain s' where "tag_blocks_body t s = Ok () s'" by auto
  with tag_blocks_body_advances[OF assms] show ?thesis by simp
qed

lemma total_raw_content_while: "total (raw_content_while t name)"
proof (rule totalI)
  fix s
  show "\<exists>v s'. raw_content_while t name s = Ok v s'"
  proof (induction t name s rule: raw_content_while.induct)
    case (1 t name s)
    show ?case
    proof (cases "is_end t s")
      case True
      then show ?thesis by (subst raw_content_while.simps) simp
    next
      case False
      from totalD[OF total_parse_text, of t "end_filter ''<''" s]
      obtain x s1 where p: "parse_text t (end_filter ''<'') False s = Ok x s1" by blast
      obtain found s2 where c: "try_parse_close_tag2 t (Some name) s1 = Ok found s2"
        unfolding try_parse_close_tag2_def using totalD[OF total_restorer] by blast
      show ?thesis
      proof (cases found)
        case True
        then show ?thesis using False p c by (subst raw_content_while.simps) simp
      next
        case nf: False
        have "\<exists>v s'. lt_while t s2 = Ok v s'"
          by (induction t s2 rule: lt_while.induct, subst lt_while.simps)
             (auto simp: next_char_def Let_def is_end_def)
        then obtain y s3 where l: "lt_while t s2 = Ok y s3" by blast
        from "1.IH"[OF False p refl c _ l] nf
        show ?thesis using False p c l by (subst raw_content_while.simps) simp
      qed
    qed
  qed
qed


section \<open>Rules that keep the span list, and rules that only append to it\<close>

lemma keepsI: "(\<And>s. result (state_of (f s)) = result s) \<Longrightarrow> keeps f"
  by (simp add: keeps_def)

lemma keepsD: "keeps f \<Longrightarrow> result (state_of (f s)) = result s"
  by (simp add: keeps_def)

lemma keeps_Ok: "keeps f \<Longrightarrow> f s = Ok v s' \<Longrightarrow> result s' = result s"
  using keepsD[of f s] by simp

lemma keeps_Err: "keeps f \<Longrightarrow> f s = Err s' \<Longrightarrow> result s' = result s"
  using keepsD[of f s] by simp

lemma keeps_seq: "keeps m \<Longrightarrow> (\<And>v. keeps (f v)) \<Longrightarrow> keeps (seq m f)"
proof (rule keepsI)
  fix s
  assume m: "keeps m" and f: "\<And>v. keeps (f v)"
  show "result (state_of (seq m f s)) = result s"
  proof (cases "m s")
    case (Ok v s1)
    then show ?thesis using keeps_Ok[OF m Ok] keepsD[OF f, of v s1] by (simp add: seq_def)
  next
    case (Err s1)
    then show ?thesis using keeps_Err[OF m Err] by (simp add: seq_def)
  qed
qed

lemma keeps_skip_match: "keeps (skip_match t p b)"
  by (rule keepsI) (simp add: skip_match_def skip_len_def)

lemma keeps_next_char: "keeps (next_char t)"
  by (rule keepsI) (simp add: next_char_def Let_def)

lemma keeps_try_skip_whitespaces: "keeps (try_skip_whitespaces ws t)"
proof (rule keepsI)
  fix s
  show "result (state_of (try_skip_whitespaces ws t s)) = result s"
    by (induction ws t s rule: try_skip_whitespaces.induct, subst try_skip_whitespaces.simps)
       (auto simp: next_char_def Let_def split: if_splits)
qed

lemma keeps_skip_whitespaces: "keeps (skip_whitespaces ws t)"
  by (rule keepsI) (simp add: skip_whitespaces_def keepsD[OF keeps_try_skip_whitespaces])

lemma keeps_parse_text_while: "keeps (parse_text_while t f out)"
proof (rule keepsI)
  fix s
  show "result (state_of (parse_text_while t f out s)) = result s"
    by (induction t f out s rule: parse_text_while.induct, subst parse_text_while.simps)
       (auto simp: next_char_def Let_def split: if_splits)
qed

lemma keeps_parse_text: "keeps (parse_text t f m)"
  by (rule keepsI)
     (simp add: parse_text_def next_char_def Let_def keepsD[OF keeps_parse_text_while])

lemma keeps_lt_while: "keeps (lt_while t)"
proof (rule keepsI)
  fix s
  show "result (state_of (lt_while t s)) = result s"
    by (induction t s rule: lt_while.induct, subst lt_while.simps)
       (auto simp: next_char_def Let_def split: if_splits)
qed


lemma shift_shift: "shift a (shift b x) = shift (a @ b) x"
  by (cases x) simp_all

lemma shift_Nil: "shift [] x = x"
  by (cases x) simp_all

lemma localI: "(\<And>s. f s = shift (result s) (f (s\<lparr>result := []\<rparr>))) \<Longrightarrow> local_rule f"
  unfolding local_rule_def by blast

lemma localD: "local_rule f \<Longrightarrow> f s = shift (result s) (f (s\<lparr>result := []\<rparr>))"
  unfolding local_rule_def by blast

lemma local_at:
  assumes "local_rule f"
  shows "f (s\<lparr>result := R\<rparr>) = shift R (f (s\<lparr>result := []\<rparr>))"
  using localD[OF assms, of "s\<lparr>result := R\<rparr>"] by simp

lemma local_seq:
  assumes m: "local_rule m" and f: "\<And>v. local_rule (f v)"
  shows "local_rule (seq m f)"
proof (rule localI)
  fix s :: parser
  let ?s0 = "s\<lparr>result := []\<rparr>"
  show "seq m f s = shift (result s) (seq m f ?s0)"
  proof (cases "m ?s0")
    case (Err s1)
    then show ?thesis using localD[OF m, of s] by (simp add: seq_def)
  next
    case (Ok v s1)
    have a: "m s = Ok v (s1\<lparr>result := result s @ result s1\<rparr>)"
      using localD[OF m, of s] Ok by simp
    have b: "f v (s1\<lparr>result := result s @ result s1\<rparr>)
               = shift (result s @ result s1) (f v (s1\<lparr>result := []\<rparr>))"
      using f by (rule local_at)
    have c: "f v s1 = shift (result s1) (f v (s1\<lparr>result := []\<rparr>))"
      using f by (rule localD)
    show ?thesis using Ok a b c by (simp add: seq_def shift_shift)
  qed
qed

lemma local_Err: "local_rule Err"
  by (rule localI) simp

lemma local_ret: "local_rule (ret v)"
  by (rule localI) (simp add: ret_def)

lemma is_end_result [simp]: "is_end t (s\<lparr>result := R\<rparr>) = is_end t s"
  by (simp add: is_end_def)

lemma char_at_result [simp]: "char_at t (s\<lparr>result := R\<rparr>) = char_at t s"
  by (simp add: char_at_def)

lemma char_test_result [simp]: "char_test f t (s\<lparr>result := R\<rparr>) = char_test f t s"
  by (simp add: char_test_def)

lemma can_skip_result [simp]:
  "can_skip_whitespace ws t (s\<lparr>result := R\<rparr>) = can_skip_whitespace ws t s"
  by (simp add: can_skip_whitespace_def)

lemma match_single_result [simp]:
  "match_single t p b (s\<lparr>result := R\<rparr>) = match_single t p b s"
  by (simp add: match_single_def)

lemma match_result [simp]: "match t ps b (s\<lparr>result := R\<rparr>) = match t ps b s"
  by (induction ps) (simp_all add: match.simps)

lemma local_skip_match: "local_rule (skip_match t p b)"
  by (rule localI) (simp add: skip_match_def skip_len_def)

lemma try_skip_whitespaces_result:
  "try_skip_whitespaces ws t \<lparr>pos = p, result = R\<rparr>
     = shift R (try_skip_whitespaces ws t \<lparr>pos = p, result = []\<rparr>)"
proof (induction "length t - p" arbitrary: p rule: less_induct)
  case less
  define c where "c \<longleftrightarrow> p < length t \<and> t ! p \<in> set ws"
  have l: "try_skip_whitespaces ws t \<lparr>pos = p, result = R\<rparr>
             = (if c then try_skip_whitespaces ws t \<lparr>pos = p + 1, result = R\<rparr>
                else Ok () \<lparr>pos = p, result = R\<rparr>)"
    by (subst try_skip_whitespaces.simps)
       (auto simp: c_def can_skip_whitespace_def is_end_def char_test_def char_at_def
          next_char_def Let_def)
  have r: "try_skip_whitespaces ws t \<lparr>pos = p, result = []\<rparr>
             = (if c then try_skip_whitespaces ws t \<lparr>pos = p + 1, result = []\<rparr>
                else Ok () \<lparr>pos = p, result = []\<rparr>)"
    by (subst try_skip_whitespaces.simps)
       (auto simp: c_def can_skip_whitespace_def is_end_def char_test_def char_at_def
          next_char_def Let_def)
  show ?case
  proof (cases c)
    case True
    then have "length t - (p + 1) < length t - p" by (auto simp: c_def)
    from less[OF this] show ?thesis by (subst l, subst r) (simp add: True)
  next
    case False
    then show ?thesis by (subst l, subst r) simp
  qed
qed

lemma local_try_skip_whitespaces: "local_rule (try_skip_whitespaces ws t)"
proof (rule localI)
  fix s :: parser
  show "try_skip_whitespaces ws t s
          = shift (result s) (try_skip_whitespaces ws t (s\<lparr>result := []\<rparr>))"
    using try_skip_whitespaces_result[where p = "pos s" and R = "result s"]
    by (cases s) simp
qed

lemma parse_text_while_result:
  "parse_text_while t f out \<lparr>pos = p, result = R\<rparr>
     = shift R (parse_text_while t f out \<lparr>pos = p, result = []\<rparr>)"
proof (induction "length t - p" arbitrary: p out rule: less_induct)
  case less
  define c where "c \<longleftrightarrow> p < length t \<and> f (t ! p)"
  have l: "parse_text_while t f out \<lparr>pos = p, result = R\<rparr>
             = (if c then parse_text_while t f (out @ [t ! p]) \<lparr>pos = p + 1, result = R\<rparr>
                else Ok out \<lparr>pos = p, result = R\<rparr>)"
    by (subst parse_text_while.simps)
       (auto simp: c_def is_end_def char_test_def char_at_def next_char_def Let_def)
  have r: "parse_text_while t f out \<lparr>pos = p, result = []\<rparr>
             = (if c then parse_text_while t f (out @ [t ! p]) \<lparr>pos = p + 1, result = []\<rparr>
                else Ok out \<lparr>pos = p, result = []\<rparr>)"
    by (subst parse_text_while.simps)
       (auto simp: c_def is_end_def char_test_def char_at_def next_char_def Let_def)
  show ?case
  proof (cases c)
    case True
    then have "length t - (p + 1) < length t - p" by (auto simp: c_def)
    from less[OF this] show ?thesis by (subst l, subst r) (simp add: True)
  next
    case False
    then show ?thesis by (subst l, subst r) simp
  qed
qed

lemma local_parse_text: "local_rule (parse_text t f m)"
proof (rule localI)
  fix s :: parser
  obtain p R where s: "s = \<lparr>pos = p, result = R\<rparr>" by (cases s) simp
  show "parse_text t f m s = shift (result s) (parse_text t f m (s\<lparr>result := []\<rparr>))"
    using parse_text_while_result[of t f "[]" p R]
      parse_text_while_result[of t f "[t ! p]" "p + 1" R]
    by (simp add: s parse_text_def next_char_def Let_def is_end_def char_test_def char_at_def)
qed

lemma local_result_updater:
  assumes "local_rule f"
  shows "local_rule (parser_result_updater ty f)"
proof (rule localI)
  fix s :: parser
  show "parser_result_updater ty f s
          = shift (result s) (parser_result_updater ty f (s\<lparr>result := []\<rparr>))"
    using localD[OF assms, of s]
    by (cases "f (s\<lparr>result := []\<rparr>)") (simp_all add: parser_result_updater_def Let_def)
qed

lemma local_parse_tag_name: "local_rule (parse_tag_name t)"
  unfolding parse_tag_name_def skip_name_def
  by (rule local_result_updater) (rule local_parse_text)

lemma local_close_rest:
  "local_rule (\<lambda>s. if c then Err s
        else seq (try_skip_whitespaces WHITESPACES t) (\<lambda>_. skip_match t ''>'' False) s)"
proof (rule localI)
  fix s :: parser
  have k: "local_rule (seq (try_skip_whitespaces WHITESPACES t) (\<lambda>_. skip_match t ''>'' False))"
    by (rule local_seq) (rule local_try_skip_whitespaces, rule local_skip_match)
  show "(if c then Err s
         else seq (try_skip_whitespaces WHITESPACES t) (\<lambda>_. skip_match t ''>'' False) s)
      = shift (result s) (if c then Err (s\<lparr>result := []\<rparr>)
         else seq (try_skip_whitespaces WHITESPACES t) (\<lambda>_. skip_match t ''>'' False)
                (s\<lparr>result := []\<rparr>))"
    using localD[OF k, of s] by (cases c) simp_all
qed

lemma local_parse_close_tag: "local_rule (parse_close_tag t n)"
  unfolding parse_close_tag_def
  apply (rule local_seq, rule local_skip_match)
  apply (rule local_seq, rule local_try_skip_whitespaces)
  apply (rule local_seq, rule local_parse_tag_name)
  apply (rule local_close_rest)
  done

lemma parse_tag_name_span:
  assumes "parse_tag_name t s = Ok v s'"
  shows "result s' = result s @ [\<lparr>l = pos s, r = pos s', type = ''tag_name''\<rparr>]"
proof -
  from assms obtain s1 where a: "skip_name t s = Ok v s1" and p: "pos s' = pos s1"
    unfolding parse_tag_name_def by (blast dest: result_updater_Ok)
  have adv: "pos s < pos s1" using a by (simp add: skip_name_def parse_text_min_one)
  have "result s1 = result s"
    using a unfolding skip_name_def by (rule keeps_Ok[OF keeps_parse_text])
  then show ?thesis using assms a adv
    by (simp add: parse_tag_name_def parser_result_updater_def Let_def split: if_splits)
       auto
qed

lemma parse_close_tag_span:
  assumes "parse_close_tag t n s = Ok v s'"
  shows "\<exists>a b. result s' = result s @ [\<lparr>l = a, r = b, type = ''tag_name''\<rparr>]"
proof -
  from assms obtain s1 s2 w s3 where
    a: "skip_match t ''</'' False s = Ok () s1" and
    b: "try_skip_whitespaces WHITESPACES t s1 = Ok () s2" and
    c: "parse_tag_name t s2 = Ok w s3" and
    d: "seq (try_skip_whitespaces WHITESPACES t) (\<lambda>_. skip_match t ''>'' False) s3 = Ok v s'"
    unfolding parse_close_tag_def by (auto simp: seq_Ok_iff split: if_splits)
  have "result s1 = result s" using keeps_skip_match a by (rule keeps_Ok)
  moreover have "result s2 = result s1" using keeps_try_skip_whitespaces b by (rule keeps_Ok)
  moreover note parse_tag_name_span[OF c]
  moreover have "result s' = result s3"
  proof -
    have "keeps (seq (try_skip_whitespaces WHITESPACES t) (\<lambda>_. skip_match t ''>'' False))"
      by (intro keeps_seq keeps_try_skip_whitespaces keeps_skip_match)
    then show ?thesis using d by (rule keeps_Ok)
  qed
  ultimately show ?thesis by simp
qed

lemma parse_close_tag_again:
  assumes "parse_close_tag t n s = Ok v s'"
    and "result s' = result s @ d"
  shows "parse_close_tag t n (s\<lparr>result := R\<rparr>) = Ok v (s'\<lparr>result := R @ d\<rparr>)"
proof -
  let ?f = "parse_close_tag t n"
  have 1: "?f s = shift (result s) (?f (s\<lparr>result := []\<rparr>))"
    using local_parse_close_tag by (rule localD)
  have 2: "?f (s\<lparr>result := R\<rparr>) = shift R (?f (s\<lparr>result := []\<rparr>))"
    using local_parse_close_tag by (rule local_at)
  from 1 assms(1) obtain s0 where 3: "?f (s\<lparr>result := []\<rparr>) = Ok v s0"
    and 4: "s' = s0\<lparr>result := result s @ result s0\<rparr>"
    by (cases "?f (s\<lparr>result := []\<rparr>)") auto
  from 4 assms(2) have "result s0 = d" by simp
  with 2 3 4 show ?thesis by simp
qed

lemma raw_content_while_break:
  assumes "raw_content_while t name s = Ok v s1" and "pos s1 < length t"
  shows "\<exists>s0 s2. result s0 = result s \<and> pos s0 = pos s1
           \<and> parse_close_tag t (Some name) s0 = Ok () s2 \<and> s1 = s2\<lparr>pos := pos s0\<rparr>"
  using assms
proof (induction t name s rule: raw_content_while.induct)
  case (1 t name s)
  show ?case
  proof (cases "is_end t s")
    case True
    with 1(2,3) show ?thesis
      by (subst (asm) raw_content_while.simps) (simp add: is_end_def)
  next
    case False
    from totalD[OF total_parse_text, of t "end_filter ''<''" s]
    obtain x sa where p: "parse_text t (end_filter ''<'') False s = Ok x sa" by blast
    have ra: "result sa = result s" using keeps_parse_text p by (rule keeps_Ok)
    obtain found sb where c: "try_parse_close_tag2 t (Some name) sa = Ok found sb"
      unfolding try_parse_close_tag2_def using totalD[OF total_restorer] by blast
    show ?thesis
    proof (cases found)
      case True
      with c have pc: "parse_close_tag t (Some name) sa = Ok () sb"
        using restorer_cases[OF c[unfolded try_parse_close_tag2_def]] by simp
      have "s1 = sb\<lparr>pos := pos sa\<rparr>"
        using 1(2) False p c True by (subst (asm) raw_content_while.simps) simp
      with ra pc show ?thesis by auto
    next
      case nf: False
      with c have same: "sb = sa"
        using restorer_cases[OF c[unfolded try_parse_close_tag2_def]] by simp
      show ?thesis
      proof (cases "lt_while t sb")
        case (Err sc)
        with 1(2) False p c nf show ?thesis
          by (subst (asm) raw_content_while.simps) simp
      next
        case (Ok y sc)
        have rc: "result sc = result s"
          using keeps_Ok[OF keeps_lt_while Ok] same ra by simp
        have "raw_content_while t name sc = Ok v s1"
          using 1(2) False p c nf Ok by (subst (asm) raw_content_while.simps) simp
        from "1.IH"[OF False p refl c _ Ok this 1(3)] nf rc
        show ?thesis by simp
      qed
    qed
  qed
qed

lemma raw_then_close:
  assumes u: "parser_result_updater cat (raw_content_while t name) s = Ok () s1"
    and lt: "pos s1 < length t"
  shows "\<exists>a b p.
     result s1 = result s @ [\<lparr>l = a, r = b, type = ''tag_name''\<rparr>]
        @ (if pos s < pos s1 then [\<lparr>l = pos s, r = pos s1, type = cat\<rparr>] else [])
     \<and> try_parse_close_tag t (Some name) s1 =
         Ok (Some ()) \<lparr>pos = p, result = result s1 @ [\<lparr>l = a, r = b, type = ''tag_name''\<rparr>]\<rparr>"
proof -
  from u obtain sr where w: "raw_content_while t name s = Ok () sr" and ps: "pos s1 = pos sr"
    by (blast dest: result_updater_Ok)
  have s1: "s1 = sr\<lparr>result := result sr
                @ (if pos s < pos sr then [\<lparr>l = pos s, r = pos sr, type = cat\<rparr>] else [])\<rparr>"
    using u w by (simp add: parser_result_updater_def Let_def split: if_splits)
  from raw_content_while_break[OF w] lt ps
  obtain s0 s2 where r0: "result s0 = result s" and p0: "pos s0 = pos sr"
    and pc: "parse_close_tag t (Some name) s0 = Ok () s2" and sr: "sr = s2\<lparr>pos := pos s0\<rparr>"
    by auto
  from parse_close_tag_span[OF pc] obtain a b where
    sp: "result s2 = result s0 @ [\<lparr>l = a, r = b, type = ''tag_name''\<rparr>]" by blast
  have e: "s1 = s0\<lparr>result := result s1\<rparr>"
    using s1 sr by (cases s0, cases s2) simp
  have "parse_close_tag t (Some name) (s0\<lparr>result := result s1\<rparr>)
          = Ok () (s2\<lparr>result := result s1 @ [\<lparr>l = a, r = b, type = ''tag_name''\<rparr>]\<rparr>)"
    using pc sp by (rule parse_close_tag_again)
  with e have "parse_close_tag t (Some name) s1
          = Ok () (s2\<lparr>result := result s1 @ [\<lparr>l = a, r = b, type = ''tag_name''\<rparr>]\<rparr>)"
    by simp
  then have "try_parse_close_tag t (Some name) s1
          = Ok (Some ()) \<lparr>pos = pos s2,
               result = result s1 @ [\<lparr>l = a, r = b, type = ''tag_name''\<rparr>]\<rparr>"
    by (simp add: try_parse_close_tag_def parser_error_handler_def Let_def)
  moreover have "result s1 = result s @ [\<lparr>l = a, r = b, type = ''tag_name''\<rparr>]
        @ (if pos s < pos s1 then [\<lparr>l = pos s, r = pos s1, type = cat\<rparr>] else [])"
    using s1 sr sp r0 ps by simp
  ultimately show ?thesis by blast
qed


section \<open>The diff of the highlight ranges\<close>

lemma set_difference: "set (difference A B) = set A - set B"
  by (auto simp: difference_def)

lemma diff_for_maps:
  assumes "\<forall>key \<in> set keys. map_of tags key \<noteq> None \<or> map_of tags_new key \<noteq> None"
    and "distinct (map fst R)" and "distinct (map fst A)"
  shows "\<exists>r a. diff_for keys tags tags_new R A = Some (r, a)
           \<and> distinct (map fst r) \<and> distinct (map fst a)
           \<and> (\<forall>k. map_of a k = (if k \<in> set keys \<and> addF tags tags_new k \<noteq> None
                                  then addF tags tags_new k else map_of A k))
           \<and> (\<forall>k. map_of r k = (if k \<in> set keys \<and> remF tags tags_new k \<noteq> None
                                  then remF tags tags_new k else map_of R k))"
  using assms
proof (induction keys arbitrary: R A)
  case Nil
  then show ?case by simp
next
  case (Cons key keys)
  from Cons.prems(1) have rest: "\<forall>key \<in> set keys. map_of tags key \<noteq> None \<or> map_of tags_new key \<noteq> None"
    and here: "map_of tags key \<noteq> None \<or> map_of tags_new key \<noteq> None" by auto
  show ?case
  proof (cases "map_of tags key")
    case None
    with here obtain new where n: "map_of tags_new key = Some new" by auto
    from Cons.IH[OF rest Cons.prems(2) distinct_update[OF Cons.prems(3)], of key new]
    obtain r a where "diff_for keys tags tags_new R (AList.update key new A) = Some (r, a)"
      "distinct (map fst r)" "distinct (map fst a)"
      "\<forall>k. map_of a k = (if k \<in> set keys \<and> addF tags tags_new k \<noteq> None
                                  then addF tags tags_new k else map_of (AList.update key new A) k)"
      "\<forall>k. map_of r k = (if k \<in> set keys \<and> remF tags tags_new k \<noteq> None
                                  then remF tags tags_new k else map_of R k)" by blast
    then show ?thesis using None n
      by (auto simp: update_conv' addF_def remF_def)
  next
    case (Some old)
    show ?thesis
    proof (cases "map_of tags_new key")
      case None
      from Cons.IH[OF rest distinct_update[OF Cons.prems(2)] Cons.prems(3), of key old]
      obtain r a where "diff_for keys tags tags_new (AList.update key old R) A = Some (r, a)"
        "distinct (map fst r)" "distinct (map fst a)"
        "\<forall>k. map_of a k = (if k \<in> set keys \<and> addF tags tags_new k \<noteq> None
                                  then addF tags tags_new k else map_of A k)"
        "\<forall>k. map_of r k = (if k \<in> set keys \<and> remF tags tags_new k \<noteq> None
                                  then remF tags tags_new k else map_of (AList.update key old R) k)"
        by blast
      then show ?thesis using Some None
        by (auto simp: update_conv' addF_def remF_def)
    next
      case new: (Some new)
      from Cons.IH[OF rest distinct_update[OF Cons.prems(2)] distinct_update[OF Cons.prems(3)],
          of key "difference old new" key "difference new old"]
      obtain r a where "diff_for keys tags tags_new (AList.update key (difference old new) R)
            (AList.update key (difference new old) A) = Some (r, a)"
        "distinct (map fst r)" "distinct (map fst a)"
        "\<forall>k. map_of a k = (if k \<in> set keys \<and> addF tags tags_new k \<noteq> None
            then addF tags tags_new k else map_of (AList.update key (difference new old) A) k)"
        "\<forall>k. map_of r k = (if k \<in> set keys \<and> remF tags tags_new k \<noteq> None
            then remF tags tags_new k else map_of (AList.update key (difference old new) R) k)"
        by blast
      then show ?thesis using Some new
        by (auto simp: update_conv' addF_def remF_def)
    qed
  qed
qed

lemma ops_of_mem:
  assumes "distinct (map fst d)"
    and "\<And>k a b k' a' b'. op k a b = op k' a' b' \<longleftrightarrow> k = k' \<and> a = a' \<and> b = b'"
  shows "op key a b \<in> set (ops_of op d) \<longleftrightarrow> (a, b) \<in> ranges d key"
proof -
  have "op key a b \<in> set (ops_of op d) \<longleftrightarrow> (\<exists>v. (key, v) \<in> set d \<and> (a, b) \<in> set v)"
    unfolding ops_of_def by (auto simp: assms(2)) force
  also have "\<dots> \<longleftrightarrow> (\<exists>v. map_of d key = Some v \<and> (a, b) \<in> set v)"
    using assms(1) by simp
  also have "\<dots> \<longleftrightarrow> (a, b) \<in> ranges d key"
    by (auto simp: ranges_def split: option.splits)
  finally show ?thesis .
qed

lemma ops_of_remove: "list_all is_remove (ops_of tag_remove d)"
  by (auto simp: ops_of_def list_all_iff)

lemma ops_of_add: "list_all (\<lambda>op. \<not> is_remove op) (ops_of tag_add d)"
  by (auto simp: ops_of_def list_all_iff)

lemma ops_of_empty:
  "distinct (map fst d) \<Longrightarrow> (\<forall>k. ranges d k = {}) \<Longrightarrow> ops_of op d = []"
proof (induction d)
  case Nil
  then show ?case by (simp add: ops_of_def)
next
  case (Cons x d)
  obtain k v where x: "x = (k, v)" by (cases x)
  from Cons.prems(2) have "ranges (x # d) k = {}" by blast
  then have v: "v = []" by (simp add: ranges_def x)
  have "\<forall>k'. ranges d k' = {}"
  proof
    fix k'
    show "ranges d k' = {}"
    proof (cases "k' = k")
      case True
      with Cons.prems(1) have "map_of d k' = None" by (simp add: x map_of_eq_None_iff)
      then show ?thesis by (simp add: ranges_def)
    next
      case False
      from Cons.prems(2) have "ranges (x # d) k' = {}" by blast
      with False show ?thesis by (simp add: ranges_def x)
    qed
  qed
  with Cons.IH Cons.prems(1) have "ops_of op d = []" by simp
  then show ?case by (simp add: ops_of_def x v)
qed


lemma update_colors_example:
  "update_colors
     [(''tag_name'', [(''1.1'', ''1.4''), (''1.6'', ''1.9'')]), (''error'', [(''2.0'', ''2.1'')])]
     [(''tag_name'', [(''1.1'', ''1.4''), (''1.5'', ''1.9'')]), (''text'', [(''3.0'', ''3.1'')])]
   = Some [tag_remove ''error'' ''2.0'' ''2.1'', tag_remove ''tag_name'' ''1.6'' ''1.9'',
           tag_add ''tag_name'' ''1.5'' ''1.9'', tag_add ''text'' ''3.0'' ''3.1'']"
  by code_simp

section \<open>Claims\<close>

subsection \<open>C1: the unterminated input \<^verbatim>\<open><div><span>oops\<close>\<close>

text \<open>
  C1, as stated, asks for at least one span of category \<^verbatim>\<open>error\<close> in the result of
  parsing \<^verbatim>\<open><div><span>oops\<close>. The parser never looks for the close tag of an element
  other than \<^verbatim>\<open>script\<close> and \<^verbatim>\<open>style\<close>, so both open tags are complete blocks and the
  result holds no error span: the categories of the result are exactly
  \<^verbatim>\<open>tag_name\<close>, \<^verbatim>\<open>tag_name\<close>, \<^verbatim>\<open>text\<close>.
\<close>

theorem malformed_recovery_no_error_span:
  "''error'' \<notin> set (map type (result (state_of (HTMLParser ''<div><span>oops''))))"
  by code_simp

text \<open>
  C1, amended: for the input \<^verbatim>\<open><div><span>oops\<close> a full parse returns normally with the
  cursor at the end of the buffer (offset 15); the result is a \<^verbatim>\<open>tag_name\<close> span over
  \<^verbatim>\<open>div\<close>, a \<^verbatim>\<open>tag_name\<close> span over \<^verbatim>\<open>span\<close> and a \<^verbatim>\<open>text\<close> span over \<^verbatim>\<open>oops\<close>, and
  nothing else.
\<close>

theorem malformed_recovery_spans:
  "HTMLParser ''<div><span>oops'' =
     Ok () \<lparr>pos = 15, result =
       [\<lparr>l = 1, r = 4, type = ''tag_name''\<rparr>,
        \<lparr>l = 6, r = 10, type = ''tag_name''\<rparr>,
        \<lparr>l = 11, r = 15, type = ''text''\<rparr>]\<rparr>
   \<and> length ''<div><span>oops'' = 15
   \<and> take (4 - 1) (drop 1 ''<div><span>oops'') = ''div''
   \<and> take (10 - 6) (drop 6 ''<div><span>oops'') = ''span''
   \<and> take (15 - 11) (drop 11 ''<div><span>oops'') = ''oops''"
  by code_simp

subsection \<open>C2: a malformed doctype\<close>

text \<open>
  C2, as stated, has the failure of a malformed doctype absorbed by the tolerant wrapper,
  with an error span over the attempted doctype range. \<^verbatim>\<open>__try_parse_doctype\<close> carries
  \<^verbatim>\<open>parser_restorer\<close> and \<^verbatim>\<open>parser_result_updater\<close> only. For \<^verbatim>\<open><!doctype html\<close> the call
  returns \<^verbatim>\<open>False\<close> and leaves cursor and span list as they were: no span is recorded for
  the range 0 to 14. The one error span of the full parse, 0 to 1, comes from the
  open-tag rule, which then reads the \<^verbatim>\<open><\<close>; the rest is a \<^verbatim>\<open>text\<close> span.
\<close>

theorem doctype_no_error_span:
  "try_parse_doctype ''<!doctype html'' \<lparr>pos = 0, result = []\<rparr>
      = Ok False \<lparr>pos = 0, result = []\<rparr>
   \<and> HTMLParser ''<!doctype html'' =
      Ok () \<lparr>pos = 14, result =
        [\<lparr>l = 0, r = 1, type = ''error''\<rparr>, \<lparr>l = 1, r = 14, type = ''text''\<rparr>]\<rparr>"
  by code_simp

text \<open>
  C2, amended: for every text and every state, \<^verbatim>\<open>__try_parse_doctype\<close> either fails, and
  then returns \<^verbatim>\<open>False\<close> in exactly the state it was called in (cursor and span list
  restored, no error span recorded), or succeeds, and then has moved the cursor and
  appended exactly one \<^verbatim>\<open>doctype\<close> span from the old cursor to the new one. The doctype
  rule is speculative and not tolerant.
\<close>

theorem doctype_speculative_only:
  "try_parse_doctype t s = Ok False s \<or>
   (\<exists>s'. try_parse_doctype t s = Ok True s' \<and> pos s < pos s' \<and>
      result s' = result s @ [\<lparr>l = pos s, r = pos s', type = ''doctype''\<rparr>])"
proof -
  let ?body = "seq (skip_match t ''<!doctype'' False) (\<lambda>_.
        seq (skip_whitespaces WHITESPACES t) (\<lambda>_.
        seq (parse_text t (end_filter ''>'') True) (\<lambda>_.
        skip_match t ''>'' False)))"
  have k: "keeps ?body"
    by (intro keeps_seq keeps_skip_match keeps_skip_whitespaces keeps_parse_text)
  show ?thesis
  proof (cases "?body s")
    case (Err s1)
    then show ?thesis
      by (simp add: try_parse_doctype_def parser_restorer_def parser_result_updater_def
            Let_def restore_same)
  next
    case (Ok v s1)
    then have "pos s + length ''<!doctype'' \<le> pos s1"
      by (rule seq_Ok_skip_match_advances) (intro sound_intros)
    then have adv: "pos s < pos s1" by simp
    have r: "result s1 = result s" using k Ok by (rule keeps_Ok)
    show ?thesis using Ok adv r
      by (simp add: try_parse_doctype_def parser_restorer_def parser_result_updater_def Let_def)
  qed
qed


subsection \<open>C3: a full parse returns normally\<close>

text \<open>
  C3: for every input string the constructor \<^verbatim>\<open>HTMLParser(text)\<close> returns normally
  (\<open>Ok\<close>, never \<open>Err\<close>: no \<^verbatim>\<open>ParserError\<close> leaves \<^verbatim>\<open>_parse\<close>), with the accumulated span
  list in \<^verbatim>\<open>_result\<close>.
\<close>

theorem full_parse_completes:
  "\<exists>p spans. HTMLParser text = Ok () \<lparr>pos = p, result = spans\<rparr>"
  using parse_end[of "\<lparr>pos = 0, result = []\<rparr>" "text"] unfolding HTMLParser_def by auto


subsection \<open>C4: termination\<close>

text \<open>
  C4: every loop of the parser is a total function here, with the distance from the cursor
  to the end of the text as its variant, and a full parse of any string returns with the
  cursor at the end of the text. The theorem states the result and the progress of one
  pass through each loop: the body of the loop of \<^verbatim>\<open>__try_parse_tag_blocks\<close> returns
  with a strictly larger cursor; the loop of \<^verbatim>\<open>__parse_script\<close> and \<^verbatim>\<open>__parse_style\<close>
  returns from every state, and a pass that does not leave through \<^verbatim>\<open>break\<close> ends with a
  strictly larger cursor; a pass of the loop of \<^verbatim>\<open>__try_parse_comment\<close> raises or moves
  the cursor by one; a pass of the loop of \<^verbatim>\<open>__try_parse_tag_params\<close> that does not
  raise ends with a strictly larger cursor.
\<close>

theorem parse_terminates:
  "(\<exists>spans. HTMLParser text = Ok () \<lparr>pos = length text, result = spans\<rparr>)
   \<and> (\<not> is_end text s \<and> char_at text s = Some CHR ''<''
        \<longrightarrow> (\<exists>s'. tag_blocks_body text s = Ok () s' \<and> pos s < pos s'))
   \<and> (\<exists>s'. raw_content_while text name s = Ok () s')
   \<and> (\<not> is_end text s
        \<and> parse_text text (end_filter ''<'') False s = Ok v s1
        \<and> try_parse_close_tag2 text (Some name) s1 = Ok False s2
        \<and> lt_while text s2 = Ok () s3
        \<longrightarrow> pos s < pos s3)
   \<and> (next_char text s = Err s \<or> (\<exists>c. next_char text s = Ok c (s\<lparr>pos := pos s + 1\<rparr>)))
   \<and> (\<not> is_end text s
        \<and> try_parse_tag_param text s = Ok () p1
        \<and> try_skip_whitespaces WHITESPACES text p1 = Ok () p2
        \<longrightarrow> pos s < pos p2)"
proof (intro conjI impI)
  show "\<exists>spans. HTMLParser text = Ok () \<lparr>pos = length text, result = spans\<rparr>"
    unfolding HTMLParser_def by (rule parse_end) simp
next
  assume "\<not> is_end text s \<and> char_at text s = Some CHR ''<''"
  then show "\<exists>s'. tag_blocks_body text s = Ok () s' \<and> pos s < pos s'"
    by (simp add: tag_blocks_body_Ok)
next
  show "\<exists>s'. raw_content_while text name s = Ok () s'"
    using totalD[OF total_raw_content_while, of "text" name s] by auto
next
  assume "\<not> is_end text s
        \<and> parse_text text (end_filter ''<'') False s = Ok v s1
        \<and> try_parse_close_tag2 text (Some name) s1 = Ok False s2
        \<and> lt_while text s2 = Ok () s3"
  then show "pos s < pos s3" by (blast intro: raw_content_progress)
next
  show "next_char text s = Err s \<or> (\<exists>c. next_char text s = Ok c (s\<lparr>pos := pos s + 1\<rparr>))"
    by (simp add: next_char_def Let_def)
next
  assume a: "\<not> is_end text s
        \<and> try_parse_tag_param text s = Ok () p1
        \<and> try_skip_whitespaces WHITESPACES text p1 = Ok () p2"
  then have "pos s < pos p1" by (blast intro: try_parse_tag_param_advances)
  moreover from a have "pos p1 \<le> pos p2"
    using soundD_Ok[OF sound_try_skip_whitespaces] by (blast intro: ext_pos)
  ultimately show "pos s < pos p2" by simp
qed

text \<open>
  The theorem at the text \<^verbatim>\<open><a\<close>: from the cursor at 0 the body of the document loop
  returns with a larger cursor; a pass of the raw-content loop whose lookahead fails moves
  the cursor from 0 to 1; the attribute \<^verbatim>\<open>a\<close> moves it from 1 to 2; and the full parse
  ends at offset 2.
\<close>

theorem parse_terminates_witness:
  "\<not> is_end ''<a'' \<lparr>pos = 0, result = []\<rparr>
   \<and> char_at ''<a'' \<lparr>pos = 0, result = []\<rparr> = Some CHR ''<''
   \<and> (\<exists>s'. tag_blocks_body ''<a'' \<lparr>pos = 0, result = []\<rparr> = Ok () s'
          \<and> pos \<lparr>pos = 0, result = []\<rparr> < pos s')
   \<and> parse_text ''<a'' (end_filter ''<'') False \<lparr>pos = 0, result = []\<rparr>
        = Ok [] \<lparr>pos = 0, result = []\<rparr>
   \<and> try_parse_close_tag2 ''<a'' (Some ''script'') \<lparr>pos = 0, result = []\<rparr>
        = Ok False \<lparr>pos = 0, result = []\<rparr>
   \<and> lt_while ''<a'' \<lparr>pos = 0, result = []\<rparr> = Ok () \<lparr>pos = 1, result = []\<rparr>
   \<and> pos \<lparr>pos = 0, result = []\<rparr> < pos \<lparr>pos = 1, result = []\<rparr>
   \<and> try_parse_tag_param ''<a'' \<lparr>pos = 1, result = []\<rparr>
        = Ok () \<lparr>pos = 2, result = [\<lparr>l = 1, r = 2, type = ''tag_param_name''\<rparr>]\<rparr>
   \<and> try_skip_whitespaces WHITESPACES ''<a''
          \<lparr>pos = 2, result = [\<lparr>l = 1, r = 2, type = ''tag_param_name''\<rparr>]\<rparr>
        = Ok () \<lparr>pos = 2, result = [\<lparr>l = 1, r = 2, type = ''tag_param_name''\<rparr>]\<rparr>
   \<and> (\<exists>spans. HTMLParser ''<a'' = Ok () \<lparr>pos = length ''<a'', result = spans\<rparr>)"
proof -
  let ?s0 = "\<lparr>pos = 0, result = []\<rparr>"
  have h1: "\<not> is_end ''<a'' ?s0 \<and> char_at ''<a'' ?s0 = Some CHR ''<''" by code_simp
  have h2: "parse_text ''<a'' (end_filter ''<'') False ?s0 = Ok [] ?s0" by code_simp
  have h3: "try_parse_close_tag2 ''<a'' (Some ''script'') ?s0 = Ok False ?s0" by code_simp
  have h4: "lt_while ''<a'' ?s0 = Ok () \<lparr>pos = 1, result = []\<rparr>" by code_simp
  have h5: "try_parse_tag_param ''<a'' \<lparr>pos = 1, result = []\<rparr>
        = Ok () \<lparr>pos = 2, result = [\<lparr>l = 1, r = 2, type = ''tag_param_name''\<rparr>]\<rparr>"
    by code_simp
  have h6: "try_skip_whitespaces WHITESPACES ''<a''
          \<lparr>pos = 2, result = [\<lparr>l = 1, r = 2, type = ''tag_param_name''\<rparr>]\<rparr>
        = Ok () \<lparr>pos = 2, result = [\<lparr>l = 1, r = 2, type = ''tag_param_name''\<rparr>]\<rparr>"
    by code_simp
  note t = parse_terminates[of "''<a''" ?s0 "''script''" "[]" ?s0 ?s0
      "\<lparr>pos = 1, result = []\<rparr>"]
  from t h1 have c1: "\<exists>s'. tag_blocks_body ''<a'' ?s0 = Ok () s' \<and> pos ?s0 < pos s'"
    by blast
  from t h1 h2 h3 h4 have c2: "pos ?s0 < pos \<lparr>pos = 1, result = []\<rparr>" by blast
  from t have c3: "\<exists>spans. HTMLParser ''<a'' = Ok () \<lparr>pos = length ''<a'', result = spans\<rparr>"
    by blast
  show ?thesis using h1 h2 h3 h4 h5 h6 c1 c2 c3 by blast
qed


subsection \<open>C5: the speculative wrapper\<close>

text \<open>
  C5: for every wrapped rule \<open>func\<close> and every parser state \<open>s\<close>: when \<open>func\<close> raises,
  \<^verbatim>\<open>parser_restorer\<close> returns \<^verbatim>\<open>False\<close> in exactly the state \<open>s\<close> (cursor and span list as
  before the call, whatever the failed attempt had appended); when \<open>func\<close> returns, the
  wrapper returns \<^verbatim>\<open>True\<close> in the state \<open>func\<close> left, spans and cursor kept.
\<close>

theorem parser_restorer_spec:
  "(func s = Err s' \<longrightarrow> parser_restorer func s = Ok False s)
   \<and> (func s = Ok v s' \<longrightarrow> parser_restorer func s = Ok True s')"
  by (simp add: parser_restorer_def Let_def restore_same)

text \<open>
  The theorem at the text \<^verbatim>\<open></a>\<close>: the close-tag rule expecting \<^verbatim>\<open>b\<close> appends the span of
  the name and then raises at offset 3, and the wrapper hands back the state of the call,
  with the cursor at 0 and no span; expecting \<^verbatim>\<open>a\<close> the rule returns, and the wrapper keeps
  its span and its cursor at 4.
\<close>

theorem parser_restorer_spec_witness:
  "parse_close_tag ''</a>'' (Some ''b'') \<lparr>pos = 0, result = []\<rparr>
      = Err \<lparr>pos = 3, result = [\<lparr>l = 2, r = 3, type = ''tag_name''\<rparr>]\<rparr>
   \<and> parser_restorer (parse_close_tag ''</a>'' (Some ''b'')) \<lparr>pos = 0, result = []\<rparr>
      = Ok False \<lparr>pos = 0, result = []\<rparr>
   \<and> parse_close_tag ''</a>'' (Some ''a'') \<lparr>pos = 0, result = []\<rparr>
      = Ok () \<lparr>pos = 4, result = [\<lparr>l = 2, r = 3, type = ''tag_name''\<rparr>]\<rparr>
   \<and> parser_restorer (parse_close_tag ''</a>'' (Some ''a'')) \<lparr>pos = 0, result = []\<rparr>
      = Ok True \<lparr>pos = 4, result = [\<lparr>l = 2, r = 3, type = ''tag_name''\<rparr>]\<rparr>"
proof -
  let ?s0 = "\<lparr>pos = 0, result = []\<rparr>"
  let ?e = "\<lparr>pos = 3, result = [\<lparr>l = 2, r = 3, type = ''tag_name''\<rparr>]\<rparr>"
  let ?k = "\<lparr>pos = 4, result = [\<lparr>l = 2, r = 3, type = ''tag_name''\<rparr>]\<rparr>"
  have f: "parse_close_tag ''</a>'' (Some ''b'') ?s0 = Err ?e" by code_simp
  have g: "parse_close_tag ''</a>'' (Some ''a'') ?s0 = Ok () ?k" by code_simp
  from f parser_restorer_spec[of "parse_close_tag ''</a>'' (Some ''b'')" ?s0 ?e]
  have a: "parser_restorer (parse_close_tag ''</a>'' (Some ''b'')) ?s0 = Ok False ?s0"
    by blast
  from g parser_restorer_spec[of "parse_close_tag ''</a>'' (Some ''a'')" ?s0 ?k "()"]
  have b: "parser_restorer (parse_close_tag ''</a>'' (Some ''a'')) ?s0 = Ok True ?k"
    by blast
  show ?thesis using f g a b by blast
qed

subsection \<open>C6: every span is well formed\<close>

text \<open>
  C6: every span \<open>e\<close> of the result of a full parse of any text has
  \<open>0 \<le> l e \<le> r e \<le> length text\<close> and a category among \<^verbatim>\<open>doctype\<close>, \<^verbatim>\<open>tag_name\<close>,
  \<^verbatim>\<open>tag_param_name\<close>, \<^verbatim>\<open>tag_param_value\<close>, \<^verbatim>\<open>comment\<close>, \<^verbatim>\<open>text\<close>, \<^verbatim>\<open>script\<close>, \<^verbatim>\<open>style\<close> and
  \<^verbatim>\<open>error\<close> (\<open>wf_span\<close>); the reset of the cursor in \<^verbatim>\<open>__parse_script\<close> and
  \<^verbatim>\<open>__parse_style\<close> is covered by \<open>ext_reset\<close>.
\<close>

theorem span_invariant: "list_all (wf_span text) (result (state_of (HTMLParser text)))"
proof -
  have "ext text \<lparr>pos = 0, result = []\<rparr> (state_of (HTMLParser text))"
    using soundD[OF sound_doc, of "text" "\<lparr>pos = 0, result = []\<rparr>"]
    by (simp add: HTMLParser_def parse_def)
  then show ?thesis by (simp add: ext_def)
qed


subsection \<open>C7: the position converter\<close>

text \<open>
  C7: the table of the position converter is the list of the lengths of the lines of the
  text, each with its newline (\<open>line_lengths\<close>); \<^verbatim>\<open>convert\<close> starts at line 1 and
  subtracts the next length of the table while it is at most the remaining offset,
  adding one to the line (\<open>convert_spec\<close>); and for the text \<^verbatim>\<open>ab\ncd\<close> offset 0 is line 1,
  column 0 (the string \<^verbatim>\<open>1.0\<close>) and offset 3 is line 2, column 0 (the string \<^verbatim>\<open>2.0\<close>).
\<close>

theorem position_converter_spec:
  "PositionConverter text = line_lengths text 0 \<and>
   convert_for (PositionConverter text) 1 offset
     = convert_spec (PositionConverter text) 0 1 offset \<and>
   PositionConverter ''ab\<newline>cd'' = [3] \<and>
   convert_for (PositionConverter ''ab\<newline>cd'') 1 0 = (1, 0) \<and>
   convert_for (PositionConverter ''ab\<newline>cd'') 1 3 = (2, 0) \<and>
   convert (PositionConverter ''ab\<newline>cd'') 0 = ''1.0'' \<and>
   convert (PositionConverter ''ab\<newline>cd'') 3 = ''2.0''"
proof -
  have a: "PositionConverter text = line_lengths text 0"
    using PositionConverter_while_spec[of 0 "text" "[]"] by (simp add: PositionConverter_def)
  have b: "convert_for (PositionConverter text) 1 offset
             = convert_spec (PositionConverter text) 0 1 offset"
    using convert_for_spec[of 0 "PositionConverter text" 1 offset] by simp
  have c: "PositionConverter ''ab\<newline>cd'' = [3]" by code_simp
  have d: "convert_for [3] 1 0 = (1, 0)" "convert_for [3] 1 3 = (2, 0)" by simp_all
  have e: "convert [3] 0 = ''1.0''" "convert [3] 3 = ''2.0''" by code_simp+
  show ?thesis using a b c d e by simp
qed

subsection \<open>C8: raw content of \<^verbatim>\<open>script\<close>\<close>

text \<open>
  C8: for the input \<^verbatim>\<open><script>if (a < b) {}</script>\<close> the parse returns normally at the
  end of the buffer with four spans. The only \<^verbatim>\<open>tag_name\<close> spans are the one of the open
  tag (1 to 7) and those of the close tag (23 to 29); none starts at the \<^verbatim>\<open><\<close> of the
  script body (offset 14). The body \<^verbatim>\<open>if (a < b) {}\<close> (8 to 21) is one \<^verbatim>\<open>script\<close> span, and
  the rest of the buffer, \<^verbatim>\<open></script>\<close>, is consumed by the close tag without an error
  span.
\<close>

theorem raw_content_isolation:
  "HTMLParser ''<script>if (a < b) {}</script>'' =
     Ok () \<lparr>pos = 30, result =
       [\<lparr>l = 1, r = 7, type = ''tag_name''\<rparr>,
        \<lparr>l = 23, r = 29, type = ''tag_name''\<rparr>,
        \<lparr>l = 8, r = 21, type = ''script''\<rparr>,
        \<lparr>l = 23, r = 29, type = ''tag_name''\<rparr>]\<rparr>
   \<and> length ''<script>if (a < b) {}</script>'' = 30
   \<and> take (21 - 8) (drop 8 ''<script>if (a < b) {}</script>'') = ''if (a < b) {}''
   \<and> ''<script>if (a < b) {}</script>'' ! 14 = CHR ''<''
   \<and> drop 21 ''<script>if (a < b) {}</script>'' = ''</script>''"
  by code_simp

subsection \<open>C9: the diff of old and new highlight ranges\<close>

text \<open>
  C9: for every pair of dictionaries \<open>tags\<close> (old) and \<open>tags_new\<close> (new) the loop over the
  keys completes; for every tag name the ranges to add are the new ranges without the
  old ones and the ranges to remove are the old ranges without the new ones (so a name
  only in the old dictionary has all its ranges removed, a name only in the new one has
  all its ranges added); the calls made are first the \<^verbatim>\<open>tag_remove\<close> calls, one for each
  range to remove, then the \<^verbatim>\<open>tag_add\<close> calls, one for each range to add; and when the new
  dictionary is the old one no call is made.
\<close>

theorem update_colors_diff:
  "\<exists>tags_to_remove tags_to_add.
     diff_for (remdups (map fst tags @ map fst tags_new)) tags tags_new [] []
       = Some (tags_to_remove, tags_to_add)
   \<and> update_colors tags tags_new
       = Some (ops_of tag_remove tags_to_remove @ ops_of tag_add tags_to_add)
   \<and> (\<forall>key. ranges tags_to_add key = ranges tags_new key - ranges tags key)
   \<and> (\<forall>key. ranges tags_to_remove key = ranges tags key - ranges tags_new key)
   \<and> (\<forall>key a b. tag_add key a b \<in> set (ops_of tag_add tags_to_add)
         \<longleftrightarrow> (a, b) \<in> ranges tags_new key - ranges tags key)
   \<and> (\<forall>key a b. tag_remove key a b \<in> set (ops_of tag_remove tags_to_remove)
         \<longleftrightarrow> (a, b) \<in> ranges tags key - ranges tags_new key)
   \<and> list_all is_remove (ops_of tag_remove tags_to_remove)
   \<and> list_all (\<lambda>op. \<not> is_remove op) (ops_of tag_add tags_to_add)
   \<and> update_colors tags tags = Some []"
proof -
  have dom: "\<forall>key \<in> set (remdups (map fst t1 @ map fst t2)).
               map_of t1 key \<noteq> None \<or> map_of t2 key \<noteq> None" for t1 t2 :: tag_dict
    by (auto simp: map_of_eq_None_iff)
  have main: "\<exists>r a. diff_for (remdups (map fst t1 @ map fst t2)) t1 t2 [] [] = Some (r, a)
       \<and> distinct (map fst r) \<and> distinct (map fst a)
       \<and> (\<forall>key. ranges a key = ranges t2 key - ranges t1 key)
       \<and> (\<forall>key. ranges r key = ranges t1 key - ranges t2 key)" for t1 t2 :: tag_dict
  proof -
    from diff_for_maps[OF dom, of "[]" "[]" t1 t2]
    obtain r a where d: "diff_for (remdups (map fst t1 @ map fst t2)) t1 t2 [] [] = Some (r, a)"
      and dr: "distinct (map fst r)" and da: "distinct (map fst a)"
      and ma: "\<forall>k. map_of a k = (if k \<in> set (remdups (map fst t1 @ map fst t2))
                    \<and> addF t1 t2 k \<noteq> None then addF t1 t2 k else map_of [] k)"
      and mr: "\<forall>k. map_of r k = (if k \<in> set (remdups (map fst t1 @ map fst t2))
                    \<and> remF t1 t2 k \<noteq> None then remF t1 t2 k else map_of [] k)"
      by auto
    have a: "map_of a k = addF t1 t2 k" for k
    proof (cases "addF t1 t2 k")
      case None
      with ma show ?thesis by simp
    next
      case (Some v)
      then have "map_of t2 k \<noteq> None" by (auto simp: addF_def split: option.splits)
      then have "k \<in> set (remdups (map fst t1 @ map fst t2))"
        by (auto simp: map_of_eq_None_iff)
      with ma Some show ?thesis by simp
    qed
    have r: "map_of r k = remF t1 t2 k" for k
    proof (cases "remF t1 t2 k")
      case None
      with mr show ?thesis by simp
    next
      case (Some v)
      then have "map_of t1 k \<noteq> None" by (auto simp: remF_def split: option.splits)
      then have "k \<in> set (remdups (map fst t1 @ map fst t2))"
        by (auto simp: map_of_eq_None_iff)
      with mr Some show ?thesis by simp
    qed
    have "ranges a key = ranges t2 key - ranges t1 key" for key
      by (auto simp: ranges_def a addF_def set_difference split: option.splits)
    moreover have "ranges r key = ranges t1 key - ranges t2 key" for key
      by (auto simp: ranges_def r remF_def set_difference split: option.splits)
    ultimately show ?thesis using d dr da by blast
  qed
  from main[of tags tags_new] obtain r a where
    d: "diff_for (remdups (map fst tags @ map fst tags_new)) tags tags_new [] [] = Some (r, a)"
    and dr: "distinct (map fst r)" and da: "distinct (map fst a)"
    and ra: "\<forall>key. ranges a key = ranges tags_new key - ranges tags key"
    and rr: "\<forall>key. ranges r key = ranges tags key - ranges tags_new key" by blast
  have u: "update_colors tags tags_new = Some (ops_of tag_remove r @ ops_of tag_add a)"
    using d by (simp add: update_colors_def)
  have oa: "tag_add key x y \<in> set (ops_of tag_add a)
         \<longleftrightarrow> (x, y) \<in> ranges tags_new key - ranges tags key" for key x y
    using ops_of_mem[OF da, of tag_add key x y] ra by simp
  have orr: "tag_remove key x y \<in> set (ops_of tag_remove r)
         \<longleftrightarrow> (x, y) \<in> ranges tags key - ranges tags_new key" for key x y
    using ops_of_mem[OF dr, of tag_remove key x y] rr by simp
  from main[of tags tags] obtain r' a' where
    d': "diff_for (remdups (map fst tags @ map fst tags)) tags tags [] [] = Some (r', a')"
    and dr': "distinct (map fst r')" and da': "distinct (map fst a')"
    and ra': "\<forall>key. ranges a' key = {}" and rr': "\<forall>key. ranges r' key = {}" by auto
  have idem: "update_colors tags tags = Some []"
    using d' ops_of_empty[OF da' ra'] ops_of_empty[OF dr' rr'] by (simp add: update_colors_def)
  show ?thesis using d u ra rr oa orr ops_of_remove ops_of_add idem by blast
qed


subsection \<open>C10: the name of the close tag of a raw-content element is recorded twice\<close>

text \<open>
  C10: whenever \<^verbatim>\<open>__parse_script\<close> (or \<^verbatim>\<open>__parse_style\<close>) returns with the cursor before the
  end of the text, which it does only when its loop left through \<^verbatim>\<open>break\<close> after a
  successful close-tag lookahead, the \<^verbatim>\<open>tag_name\<close> span that the lookahead appended is
  still in the span list, in front of the \<^verbatim>\<open>script\<close> (\<^verbatim>\<open>style\<close>) span, only the cursor
  having been reset; and the call of \<^verbatim>\<open>__try_parse_close_tag\<close> that follows in
  \<^verbatim>\<open>__parse_tag_block\<close> succeeds and appends the same \<^verbatim>\<open>tag_name\<close> span once more. For
  \<^verbatim>\<open><script>x</script>\<close> the final result holds the span 11 to 17 twice, once before and
  once after the \<^verbatim>\<open>script\<close> span.
\<close>

theorem close_tag_name_twice:
  "(parse_script text s = Ok () s1 \<and> pos s1 < length text \<longrightarrow>
      (\<exists>a b p.
         result s1 = result s @ [\<lparr>l = a, r = b, type = ''tag_name''\<rparr>]
            @ (if pos s < pos s1 then [\<lparr>l = pos s, r = pos s1, type = ''script''\<rparr>] else [])
       \<and> try_parse_close_tag text (Some ''script'') s1 =
           Ok (Some ()) \<lparr>pos = p,
              result = result s1 @ [\<lparr>l = a, r = b, type = ''tag_name''\<rparr>]\<rparr>))
   \<and> (parse_style text s = Ok () s1 \<and> pos s1 < length text \<longrightarrow>
      (\<exists>a b p.
         result s1 = result s @ [\<lparr>l = a, r = b, type = ''tag_name''\<rparr>]
            @ (if pos s < pos s1 then [\<lparr>l = pos s, r = pos s1, type = ''style''\<rparr>] else [])
       \<and> try_parse_close_tag text (Some ''style'') s1 =
           Ok (Some ()) \<lparr>pos = p,
              result = result s1 @ [\<lparr>l = a, r = b, type = ''tag_name''\<rparr>]\<rparr>))
   \<and> HTMLParser ''<script>x</script>'' =
       Ok () \<lparr>pos = 18, result =
         [\<lparr>l = 1, r = 7, type = ''tag_name''\<rparr>,
          \<lparr>l = 11, r = 17, type = ''tag_name''\<rparr>,
          \<lparr>l = 8, r = 9, type = ''script''\<rparr>,
          \<lparr>l = 11, r = 17, type = ''tag_name''\<rparr>]\<rparr>"
proof (intro conjI impI)
  assume "parse_script text s = Ok () s1 \<and> pos s1 < length text"
  then show "\<exists>a b p.
         result s1 = result s @ [\<lparr>l = a, r = b, type = ''tag_name''\<rparr>]
            @ (if pos s < pos s1 then [\<lparr>l = pos s, r = pos s1, type = ''script''\<rparr>] else [])
       \<and> try_parse_close_tag text (Some ''script'') s1 =
           Ok (Some ()) \<lparr>pos = p,
              result = result s1 @ [\<lparr>l = a, r = b, type = ''tag_name''\<rparr>]\<rparr>"
    unfolding parse_script_def by (blast intro: raw_then_close)
next
  assume "parse_style text s = Ok () s1 \<and> pos s1 < length text"
  then show "\<exists>a b p.
         result s1 = result s @ [\<lparr>l = a, r = b, type = ''tag_name''\<rparr>]
            @ (if pos s < pos s1 then [\<lparr>l = pos s, r = pos s1, type = ''style''\<rparr>] else [])
       \<and> try_parse_close_tag text (Some ''style'') s1 =
           Ok (Some ()) \<lparr>pos = p,
              result = result s1 @ [\<lparr>l = a, r = b, type = ''tag_name''\<rparr>]\<rparr>"
    unfolding parse_style_def by (blast intro: raw_then_close)
next
  show "HTMLParser ''<script>x</script>'' =
       Ok () \<lparr>pos = 18, result =
         [\<lparr>l = 1, r = 7, type = ''tag_name''\<rparr>,
          \<lparr>l = 11, r = 17, type = ''tag_name''\<rparr>,
          \<lparr>l = 8, r = 9, type = ''script''\<rparr>,
          \<lparr>l = 11, r = 17, type = ''tag_name''\<rparr>]\<rparr>"
    by code_simp
qed

text \<open>
  The theorem at \<^verbatim>\<open><script>x</script>\<close>, from the state after the open tag, and at
  \<^verbatim>\<open><style></style>\<close>, whose body is empty, so that no \<^verbatim>\<open>style\<close> span is recorded and the two
  \<^verbatim>\<open>tag_name\<close> spans of the close tag are neighbours.
\<close>

theorem close_tag_name_twice_witness:
  "parse_script ''<script>x</script>''
      \<lparr>pos = 8, result = [\<lparr>l = 1, r = 7, type = ''tag_name''\<rparr>]\<rparr>
     = Ok () \<lparr>pos = 9, result =
         [\<lparr>l = 1, r = 7, type = ''tag_name''\<rparr>,
          \<lparr>l = 11, r = 17, type = ''tag_name''\<rparr>,
          \<lparr>l = 8, r = 9, type = ''script''\<rparr>]\<rparr>
   \<and> 9 < length ''<script>x</script>''
   \<and> (\<exists>p. try_parse_close_tag ''<script>x</script>'' (Some ''script'')
           \<lparr>pos = 9, result =
             [\<lparr>l = 1, r = 7, type = ''tag_name''\<rparr>,
              \<lparr>l = 11, r = 17, type = ''tag_name''\<rparr>,
              \<lparr>l = 8, r = 9, type = ''script''\<rparr>]\<rparr>
         = Ok (Some ()) \<lparr>pos = p, result =
             [\<lparr>l = 1, r = 7, type = ''tag_name''\<rparr>,
              \<lparr>l = 11, r = 17, type = ''tag_name''\<rparr>,
              \<lparr>l = 8, r = 9, type = ''script''\<rparr>,
              \<lparr>l = 11, r = 17, type = ''tag_name''\<rparr>]\<rparr>)
   \<and> parse_style ''<style></style>''
      \<lparr>pos = 7, result = [\<lparr>l = 1, r = 6, type = ''tag_name''\<rparr>]\<rparr>
     = Ok () \<lparr>pos = 7, result =
         [\<lparr>l = 1, r = 6, type = ''tag_name''\<rparr>,
          \<lparr>l = 9, r = 14, type = ''tag_name''\<rparr>]\<rparr>
   \<and> 7 < length ''<style></style>''
   \<and> (\<exists>p. try_parse_close_tag ''<style></style>'' (Some ''style'')
           \<lparr>pos = 7, result =
             [\<lparr>l = 1, r = 6, type = ''tag_name''\<rparr>,
              \<lparr>l = 9, r = 14, type = ''tag_name''\<rparr>]\<rparr>
         = Ok (Some ()) \<lparr>pos = p, result =
             [\<lparr>l = 1, r = 6, type = ''tag_name''\<rparr>,
              \<lparr>l = 9, r = 14, type = ''tag_name''\<rparr>,
              \<lparr>l = 9, r = 14, type = ''tag_name''\<rparr>]\<rparr>)"
proof -
  let ?T = "''<script>x</script>''"
  let ?s = "\<lparr>pos = 8, result = [\<lparr>l = 1, r = 7, type = ''tag_name''\<rparr>]\<rparr>"
  let ?s1 = "\<lparr>pos = 9, result =
         [\<lparr>l = 1, r = 7, type = ''tag_name''\<rparr>,
          \<lparr>l = 11, r = 17, type = ''tag_name''\<rparr>,
          \<lparr>l = 8, r = 9, type = ''script''\<rparr>]\<rparr>"
  let ?U = "''<style></style>''"
  let ?u = "\<lparr>pos = 7, result = [\<lparr>l = 1, r = 6, type = ''tag_name''\<rparr>]\<rparr>"
  let ?u1 = "\<lparr>pos = 7, result =
         [\<lparr>l = 1, r = 6, type = ''tag_name''\<rparr>,
          \<lparr>l = 9, r = 14, type = ''tag_name''\<rparr>]\<rparr>"
  have h1: "parse_script ?T ?s = Ok () ?s1" by code_simp
  have h2: "pos ?s1 < length ?T" by simp
  have h3: "parse_style ?U ?u = Ok () ?u1" by code_simp
  have h4: "pos ?u1 < length ?U" by simp
  from close_tag_name_twice[of ?T ?s ?s1] h1 h2
  obtain a b p where
    "result ?s1 = result ?s @ [\<lparr>l = a, r = b, type = ''tag_name''\<rparr>]
        @ (if pos ?s < pos ?s1 then [\<lparr>l = pos ?s, r = pos ?s1, type = ''script''\<rparr>] else [])"
    and "try_parse_close_tag ?T (Some ''script'') ?s1 =
           Ok (Some ()) \<lparr>pos = p, result = result ?s1 @ [\<lparr>l = a, r = b, type = ''tag_name''\<rparr>]\<rparr>"
    by blast
  then have c1: "\<exists>p. try_parse_close_tag ?T (Some ''script'') ?s1 =
           Ok (Some ()) \<lparr>pos = p, result = result ?s1 @ [\<lparr>l = 11, r = 17, type = ''tag_name''\<rparr>]\<rparr>"
    by auto
  from close_tag_name_twice[of ?U ?u ?u1] h3 h4
  obtain a b p where
    "result ?u1 = result ?u @ [\<lparr>l = a, r = b, type = ''tag_name''\<rparr>]
        @ (if pos ?u < pos ?u1 then [\<lparr>l = pos ?u, r = pos ?u1, type = ''style''\<rparr>] else [])"
    and "try_parse_close_tag ?U (Some ''style'') ?u1 =
           Ok (Some ()) \<lparr>pos = p, result = result ?u1 @ [\<lparr>l = a, r = b, type = ''tag_name''\<rparr>]\<rparr>"
    by blast
  then have c2: "\<exists>p. try_parse_close_tag ?U (Some ''style'') ?u1 =
           Ok (Some ()) \<lparr>pos = p, result = result ?u1 @ [\<lparr>l = 9, r = 14, type = ''tag_name''\<rparr>]\<rparr>"
    by auto
  show ?thesis using h1 h2 h3 h4 c1 c2 by simp
qed

end
